theory Spec2Isabelle
  imports Main "HOL-Library.Word"
begin

unbundle bit_operations_syntax

section \<open>Pinned memory tokens (kernel/object/pinned\_memory\_token\_dispatcher.cpp)\<close>

text \<open>
  A shallow embedding of \<^verbatim>\<open>PinnedMemoryTokenDispatcher\<close>. The dispatcher object is a
  record, every method is a function that takes the object and the state of its
  collaborators and returns both updated. \<^verbatim>\<open>size_t\<close>, \<^verbatim>\<open>uint64_t\<close>,
  \<^verbatim>\<open>dev_vaddr_t\<close> and \<^verbatim>\<open>paddr_t\<close> are 64-bit words, so every sum and
  difference wraps as it does in the kernel. Array indices and element counts are
  natural numbers below the array's length.
\<close>

subsection \<open>Machine types, constants and macros\<close>

type_synonym u64 = "64 word"
type_synonym u32 = "32 word"

text \<open>\<^verbatim>\<open>zx_status_t\<close>: the codes this file names, and any other code a collaborator
  hands back, which the dispatcher passes through unchanged.\<close>

datatype zx_status =
    ZX_OK
  | ZX_ERR_INTERNAL
  | ZX_ERR_NO_MEMORY
  | ZX_ERR_INVALID_ARGS
  | ZX_ERR_NOT_FOUND
  | ZX_ERR_OTHER int

text \<open>The ways a call does not return: a failed \<^verbatim>\<open>ASSERT\<close>, a failed
  \<^verbatim>\<open>DEBUG_ASSERT\<close> (in a build that compiles them in), an array access outside
  the array, and a division by zero.\<close>

datatype fault = AssertFailed | DebugAssertFailed | OutOfBounds | DivideByZero

definition UINT64_MAX :: u64 where
  "UINT64_MAX = - 1"

definition kInvalidAddr :: u64 where
  "kInvalidAddr = 1"

text \<open>Modelled from the spec: the system page size, which the spec's scenarios fix at
  4096; \<^verbatim>\<open>PAGE_SIZE\<close> comes from an architecture header outside the sources.\<close>

definition PAGE_SIZE :: u64 where
  "PAGE_SIZE = 4096"

text \<open>Modelled from the spec: "a multiple of the system page size"; the macro
  \<^verbatim>\<open>IS_PAGE_ALIGNED\<close> is declared outside the sources.\<close>

definition IS_PAGE_ALIGNED :: "u64 \<Rightarrow> bool" where
  "IS_PAGE_ALIGNED x = (x AND (PAGE_SIZE - 1) = 0)"

text \<open>Modelled from the spec: \<^verbatim>\<open>ROUNDUP(a, b)\<close> rounds \<open>a\<close> up to a multiple of the
  power of two \<open>b\<close>, so that \<^verbatim>\<open>ROUNDUP(size, min_contig) / min_contig\<close> is the
  spec's \<open>ceil(length / minimum_contiguity)\<close>; the macro is declared outside the
  sources. It is the usual mask form, on 64-bit words.\<close>

definition ROUNDUP :: "u64 \<Rightarrow> u64 \<Rightarrow> u64" where
  "ROUNDUP a b = (a + (b - 1)) AND NOT (b - 1)"

text \<open>Modelled from the spec: "a power-of-two byte granularity";
  \<^verbatim>\<open>fbl::is_pow2\<close> is declared outside the sources.\<close>

definition is_pow2 :: "u64 \<Rightarrow> bool" where
  "is_pow2 v = (v \<noteq> 0 \<and> (v - 1) AND v = 0)"

subsection \<open>Collaborators\<close>

text \<open>The memory object, as far as the dispatcher looks at it: whether it is paged, what
  \<^verbatim>\<open>CommitRange\<close> and \<^verbatim>\<open>Pin\<close> answer, and the physical address of each page
  that \<^verbatim>\<open>Lookup\<close> enumerates.\<close>

record vm_object =
  is_paged :: bool
  CommitRange_result :: zx_status
  Pin_result :: zx_status
  Lookup_pages :: "u64 list"

text \<open>Everything else the dispatcher is given from outside: the initiator's minimum
  contiguity, the answer of the IOMMU to its \<open>n\<close>-th call (a \<^verbatim>\<open>Map\<close> answers with a
  status, a device address and the length it mapped; an \<^verbatim>\<open>Unmap\<close> with a status),
  whether \<^verbatim>\<open>DEBUG_ASSERT\<close> is compiled in, and what the two allocations of
  \<^verbatim>\<open>Create\<close> give (the address of the new dispatcher, when there is one).\<close>

record env =
  minimum_contiguity :: u64
  Map_result :: "nat \<Rightarrow> zx_status \<times> u64 \<times> u64"
  Unmap_result :: "nat \<Rightarrow> zx_status"
  debug_asserts :: bool
  new_array_ok :: bool
  new_pmo :: "nat option"

datatype iommu_call = IommuMap u64 u64 u32 | IommuUnmap u64 u64

datatype vmo_call = VmoCommitRange u64 u64 | VmoPin u64 u64 | VmoLookup u64 u64 | VmoUnpin u64 u64

text \<open>The state of the collaborators: the calls made to the IOMMU and to the memory
  object so far, oldest first, and the initiator's two lists of dispatchers.\<close>

record world =
  iommu_calls :: "iommu_call list"
  vmo_calls :: "vmo_call list"
  bti_pmo_list :: "nat list"
  bti_quarantine :: "nat list"

definition iommu_Map :: "env \<Rightarrow> world \<Rightarrow> u64 \<Rightarrow> u64 \<Rightarrow> u32 \<Rightarrow> (zx_status \<times> u64 \<times> u64) \<times> world" where
  "iommu_Map e w off len perms =
     (Map_result e (length (iommu_calls w)),
      w\<lparr>iommu_calls := iommu_calls w @ [IommuMap off len perms]\<rparr>)"

definition iommu_Unmap :: "env \<Rightarrow> world \<Rightarrow> u64 \<Rightarrow> u64 \<Rightarrow> zx_status \<times> world" where
  "iommu_Unmap e w vaddr len =
     (Unmap_result e (length (iommu_calls w)),
      w\<lparr>iommu_calls := iommu_calls w @ [IommuUnmap vaddr len]\<rparr>)"

definition call_vmo :: "vmo_call \<Rightarrow> world \<Rightarrow> world" where
  "call_vmo c w = w\<lparr>vmo_calls := vmo_calls w @ [c]\<rparr>"

text \<open>Modelled from the spec: the initiator's \<open>register_token\<close>, \<open>deregister_token\<close> and
  \<open>quarantine\<close>, which keep the live-token list and the quarantine list; the
  initiator's code is outside the sources.\<close>

definition AddPmoLocked :: "nat \<Rightarrow> world \<Rightarrow> world" where
  "AddPmoLocked p w = w\<lparr>bti_pmo_list := bti_pmo_list w @ [p]\<rparr>"

definition RemovePmo :: "nat \<Rightarrow> world \<Rightarrow> world" where
  "RemovePmo p w = w\<lparr>bti_pmo_list := remove1 p (bti_pmo_list w)\<rparr>"

definition Quarantine :: "nat \<Rightarrow> world \<Rightarrow> world" where
  "Quarantine p w = w\<lparr>bti_quarantine := bti_quarantine w @ [p]\<rparr>"

definition DEBUG_ASSERT :: "env \<Rightarrow> bool \<Rightarrow> bool" where
  "DEBUG_ASSERT e c = (debug_asserts e \<longrightarrow> c)"

subsection \<open>The dispatcher object\<close>

record pmt =
  this_ptr :: nat
  pmt_vmo :: vm_object
  pmt_offset :: u64
  pmt_size :: u64
  pmt_is_contiguous :: bool
  pmt_mapped_addrs :: "u64 list"
  pmt_explicitly_unpinned :: bool

function invalidate_loop :: "nat \<Rightarrow> u64 list \<Rightarrow> u64 list" where
  "invalidate_loop i addrs =
     (if i < length addrs then invalidate_loop (Suc i) (addrs[i := UINT64_MAX]) else addrs)"
  by pat_completeness auto
termination
  by (relation "measure (\<lambda>(i, addrs). length addrs - i)") auto

definition InvalidateMappedAddrsLocked :: "pmt \<Rightarrow> pmt" where
  "InvalidateMappedAddrsLocked tok =
     tok\<lparr>pmt_mapped_addrs := invalidate_loop 0 (pmt_mapped_addrs tok)\<rparr>"

definition MarkUnpinned :: "pmt \<Rightarrow> pmt" where
  "MarkUnpinned tok = tok\<lparr>pmt_explicitly_unpinned := True\<rparr>"

text \<open>The constructor: it takes over the array, fills it with the sentinel and registers
  the new object with the initiator.\<close>

definition PinnedMemoryTokenDispatcher ::
  "nat \<Rightarrow> vm_object \<Rightarrow> u64 \<Rightarrow> u64 \<Rightarrow> bool \<Rightarrow> u64 list \<Rightarrow> world \<Rightarrow> pmt \<times> world" where
  "PinnedMemoryTokenDispatcher p vmo offset sz is_contiguous mapped_addrs w =
     (InvalidateMappedAddrsLocked
        \<lparr>this_ptr = p, pmt_vmo = vmo, pmt_offset = offset, pmt_size = sz,
         pmt_is_contiguous = is_contiguous, pmt_mapped_addrs = mapped_addrs,
         pmt_explicitly_unpinned = False\<rparr>,
      AddPmoLocked p w)"

subsection \<open>Unmapping\<close>

text \<open>The scatter-gather walk of \<^verbatim>\<open>UnmapFromIommuLocked\<close>: the \<^verbatim>\<open>for\<close> loop over the
  entries, with the running \<^verbatim>\<open>remaining\<close> and \<^verbatim>\<open>status\<close>.\<close>

function unmap_walk ::
  "env \<Rightarrow> u64 list \<Rightarrow> nat \<Rightarrow> u64 \<Rightarrow> zx_status \<Rightarrow> world \<Rightarrow> fault + zx_status \<times> world" where
  "unmap_walk e addrs i remaining status w =
     (if i < length addrs then
        let addr = addrs ! i in
        if addr = UINT64_MAX then Inr (status, w)
        else
          let sz = min remaining (minimum_contiguity e) in
          if \<not> DEBUG_ASSERT e (sz = minimum_contiguity e \<or> i = length addrs - 1)
          then Inl DebugAssertFailed
          else
            let (err, w') = iommu_Unmap e w addr sz in
            if \<not> DEBUG_ASSERT e (err = ZX_OK) then Inl DebugAssertFailed
            else unmap_walk e addrs (Suc i) (remaining - sz)
                   (if err \<noteq> ZX_OK \<and> status = ZX_OK then err else status) w'
      else Inr (status, w))"
  by pat_completeness auto
termination
  by (relation "measure (\<lambda>(e, addrs, i, remaining, status, w). length addrs - i)") auto

definition UnmapFromIommuLocked :: "env \<Rightarrow> pmt \<Rightarrow> world \<Rightarrow> fault + zx_status \<times> pmt \<times> world" where
  "UnmapFromIommuLocked e tok w =
     (case pmt_mapped_addrs tok of
        [] \<Rightarrow> Inl OutOfBounds
      | a0 # _ \<Rightarrow>
          if a0 = UINT64_MAX then Inr (ZX_OK, tok, w)
          else if pmt_is_contiguous tok then
            let (status, w') = iommu_Unmap e w a0 (pmt_size tok)
            in Inr (status, InvalidateMappedAddrsLocked tok, w')
          else
            (case unmap_walk e (pmt_mapped_addrs tok) 0 (pmt_size tok) ZX_OK w of
               Inl f \<Rightarrow> Inl f
             | Inr (status, w') \<Rightarrow> Inr (status, InvalidateMappedAddrsLocked tok, w')))"

subsection \<open>Mapping\<close>

text \<open>The loop of the contiguous branch. It may not end (a map call may keep answering
  with length 0, and \<^verbatim>\<open>remaining -= mapped_len\<close> wraps), so it runs on fuel: \<open>None\<close>
  is the loop still running when the fuel is spent. It ends with the status of an early
  \<^verbatim>\<open>return\<close> (\<open>Inl\<close>) or, past the loop, with \<^verbatim>\<open>vaddr_base\<close> (\<open>Inr\<close>).\<close>

fun map_contig_loop ::
  "nat \<Rightarrow> env \<Rightarrow> u32 \<Rightarrow> pmt \<Rightarrow> u64 \<Rightarrow> u64 \<Rightarrow> u64 \<Rightarrow> world \<Rightarrow> ((zx_status + u64) \<times> world) option" where
  "map_contig_loop 0 e perms tok vaddr_base remaining curr_offset w = None"
| "map_contig_loop (Suc fuel) e perms tok vaddr_base remaining curr_offset w =
     (if remaining = 0 then Some (Inr vaddr_base, w)
      else
        let ((status, vaddr, mapped_len), w1) = iommu_Map e w curr_offset remaining perms in
        if status \<noteq> ZX_OK then
          (if vaddr_base \<noteq> kInvalidAddr
           then Some (Inl status,
                      snd (iommu_Unmap e w1 vaddr_base (curr_offset - pmt_offset tok)))
           else Some (Inl status, w1))
        else if vaddr_base = kInvalidAddr then
          map_contig_loop fuel e perms tok vaddr (remaining - mapped_len)
            (curr_offset + mapped_len) w1
        else if vaddr \<noteq> vaddr_base + curr_offset - pmt_offset tok then
          (let w2 = snd (iommu_Unmap e w1 vaddr_base (curr_offset - pmt_offset tok));
               w3 = snd (iommu_Unmap e w2 vaddr mapped_len)
           in Some (Inl ZX_ERR_INTERNAL, w3))
        else
          map_contig_loop fuel e perms tok vaddr_base (remaining - mapped_len)
            (curr_offset + mapped_len) w1)"

text \<open>\<^verbatim>\<open>for (i = 1; i < mapped_addrs_.size(); ++i) mapped_addrs_[i] = mapped_addrs_[i - 1] + min_contig\<close>\<close>

function stride_loop :: "u64 \<Rightarrow> nat \<Rightarrow> u64 list \<Rightarrow> u64 list" where
  "stride_loop min_contig i addrs =
     (if i < length addrs
      then stride_loop min_contig (Suc i) (addrs[i := addrs ! (i - 1) + min_contig])
      else addrs)"
  by pat_completeness auto
termination
  by (relation "measure (\<lambda>(min_contig, i, addrs). length addrs - i)") auto

text \<open>The inner loop of the scatter-gather branch, which breaks one mapped extent into
  chunks of \<^verbatim>\<open>min_contig\<close>. A write past the end of the array is a fault.\<close>

function fill_chunks :: "u64 \<Rightarrow> u64 list \<Rightarrow> nat \<Rightarrow> u64 \<Rightarrow> u64 \<Rightarrow> fault + u64 list \<times> nat" where
  "fill_chunks min_contig addrs next_addr_idx vaddr mapped_remaining =
     (if mapped_remaining = 0 then Inr (addrs, next_addr_idx)
      else
        let addr_pages = min mapped_remaining min_contig in
        if next_addr_idx < length addrs
        then fill_chunks min_contig (addrs[next_addr_idx := vaddr]) (Suc next_addr_idx)
               (vaddr + addr_pages) (mapped_remaining - addr_pages)
        else Inl OutOfBounds)"
  by pat_completeness auto
termination
  by (relation "measure (\<lambda>(min_contig, addrs, next_addr_idx, vaddr, mapped_remaining).
                  length addrs - next_addr_idx)") auto

text \<open>The outer loop of the scatter-gather branch, on fuel as well: a map call that keeps
  answering with length 0 keeps it running.\<close>

fun map_sg_loop ::
  "nat \<Rightarrow> env \<Rightarrow> u32 \<Rightarrow> pmt \<Rightarrow> u64 \<Rightarrow> u64 \<Rightarrow> nat \<Rightarrow> world \<Rightarrow> (fault + zx_status \<times> pmt \<times> world) option" where
  "map_sg_loop 0 e perms tok remaining curr_offset next_addr_idx w = None"
| "map_sg_loop (Suc fuel) e perms tok remaining curr_offset next_addr_idx w =
     (if remaining = 0 then
        (if \<not> DEBUG_ASSERT e (next_addr_idx = length (pmt_mapped_addrs tok))
         then Some (Inl DebugAssertFailed)
         else Some (Inr (ZX_OK, tok, w)))
      else
        let ((status, vaddr, mapped_len), w1) = iommu_Map e w curr_offset remaining perms in
        if status \<noteq> ZX_OK then
          (case UnmapFromIommuLocked e tok w1 of
             Inl f \<Rightarrow> Some (Inl f)
           | Inr (err, tok', w2) \<Rightarrow>
               if err \<noteq> ZX_OK then Some (Inl AssertFailed) else Some (Inr (status, tok', w2)))
        else if debug_asserts e \<and> minimum_contiguity e = 0 then Some (Inl DivideByZero)
        else if \<not> DEBUG_ASSERT e
                  (mapped_len mod minimum_contiguity e = 0 \<or> remaining = mapped_len)
        then Some (Inl DebugAssertFailed)
        else
          (case fill_chunks (minimum_contiguity e) (pmt_mapped_addrs tok) next_addr_idx
                  vaddr mapped_len of
             Inl f \<Rightarrow> Some (Inl f)
           | Inr (addrs', idx') \<Rightarrow>
               map_sg_loop fuel e perms (tok\<lparr>pmt_mapped_addrs := addrs'\<rparr>)
                 (remaining - min mapped_len remaining) (curr_offset + mapped_len) idx' w1))"

definition MapIntoIommu ::
  "nat \<Rightarrow> env \<Rightarrow> u32 \<Rightarrow> pmt \<Rightarrow> world \<Rightarrow> (fault + zx_status \<times> pmt \<times> world) option" where
  "MapIntoIommu fuel e perms tok w =
     (if pmt_is_contiguous tok then
        (case map_contig_loop fuel e perms tok kInvalidAddr (pmt_size tok) (pmt_offset tok) w of
           None \<Rightarrow> None
         | Some (Inl status, w') \<Rightarrow> Some (Inr (status, tok, w'))
         | Some (Inr vaddr_base, w') \<Rightarrow>
             (case pmt_mapped_addrs tok of
                [] \<Rightarrow> Some (Inl OutOfBounds)
              | _ # _ \<Rightarrow>
                  Some (Inr (ZX_OK,
                             tok\<lparr>pmt_mapped_addrs :=
                                   stride_loop (minimum_contiguity e) 1
                                     ((pmt_mapped_addrs tok)[0 := vaddr_base])\<rparr>,
                             w'))))
      else map_sg_loop fuel e perms tok (pmt_size tok) (pmt_offset tok) 0 w)"

subsection \<open>Last handle gone, destruction\<close>

definition on_zero_handles :: "env \<Rightarrow> pmt \<Rightarrow> world \<Rightarrow> fault + pmt \<times> world" where
  "on_zero_handles e tok w =
     (case UnmapFromIommuLocked e tok w of
        Inl f \<Rightarrow> Inl f
      | Inr (status, tok', w') \<Rightarrow>
          if status \<noteq> ZX_OK then Inl AssertFailed
          else if pmt_explicitly_unpinned tok' then Inr (tok', w')
          else Inr (tok', Quarantine (this_ptr tok') w'))"

text \<open>The destructor: the object is gone afterwards, the collaborators' state is what is
  left.\<close>

definition destructor :: "env \<Rightarrow> pmt \<Rightarrow> world \<Rightarrow> fault + world" where
  "destructor e tok w =
     (case UnmapFromIommuLocked e tok w of
        Inl f \<Rightarrow> Inl f
      | Inr (status, tok', w') \<Rightarrow>
          if status \<noteq> ZX_OK then Inl AssertFailed
          else
            let w'' = (if is_paged (pmt_vmo tok')
                       then call_vmo (VmoUnpin (pmt_offset tok') (pmt_size tok')) w'
                       else w')
            in Inr (RemovePmo (this_ptr tok') w''))"

subsection \<open>Creation\<close>

text \<open>The callback \<^verbatim>\<open>check_contiguous\<close>, with the expected address it keeps in its
  context.\<close>

definition check_contiguous :: "u64 \<Rightarrow> nat \<Rightarrow> u64 \<Rightarrow> zx_status \<times> u64" where
  "check_contiguous expected_addr index pa =
     (if index \<noteq> 0 \<and> pa \<noteq> expected_addr then (ZX_ERR_NOT_FOUND, expected_addr)
      else (ZX_OK, pa + PAGE_SIZE))"

text \<open>Modelled from the spec: \<open>lookup_physical_pages\<close>, which hands the pages of the range
  to the callback in order, with their index, and stops at the first status that is
  not \<^verbatim>\<open>ZX_OK\<close>; \<^verbatim>\<open>VmObject::Lookup\<close> is outside the sources.\<close>

fun Lookup :: "nat \<Rightarrow> u64 \<Rightarrow> u64 list \<Rightarrow> zx_status" where
  "Lookup index expected_addr [] = ZX_OK"
| "Lookup index expected_addr (pa # pas) =
     (case check_contiguous expected_addr index pa of
        (status, expected_addr') \<Rightarrow>
          if status \<noteq> ZX_OK then status else Lookup (Suc index) expected_addr' pas)"

text \<open>The second half of \<^verbatim>\<open>Create\<close>, from the \<^verbatim>\<open>unpin_vmo\<close> guard on; the guard's
  action runs on every \<^verbatim>\<open>return\<close> before \<^verbatim>\<open>cancel()\<close>.\<close>

definition unpin_vmo :: "vm_object \<Rightarrow> u64 \<Rightarrow> u64 \<Rightarrow> world \<Rightarrow> world" where
  "unpin_vmo vmo offset sz w = (if is_paged vmo then call_vmo (VmoUnpin offset sz) w else w)"

definition Create_pinned ::
  "nat \<Rightarrow> env \<Rightarrow> vm_object \<Rightarrow> u64 \<Rightarrow> u64 \<Rightarrow> u32 \<Rightarrow> bool \<Rightarrow> world
     \<Rightarrow> (fault + zx_status \<times> pmt option \<times> world) option" where
  "Create_pinned fuel e vmo offset sz perms is_contiguous w =
     (let min_contig = minimum_contiguity e in
      if \<not> DEBUG_ASSERT e (is_pow2 min_contig) then Some (Inl DebugAssertFailed)
      else if min_contig = 0 then Some (Inl DivideByZero)
      else
        let num_addrs = ROUNDUP sz min_contig div min_contig in
        if \<not> new_array_ok e then Some (Inr (ZX_ERR_NO_MEMORY, None, unpin_vmo vmo offset sz w))
        else
          (case new_pmo e of
             None \<Rightarrow> Some (Inr (ZX_ERR_NO_MEMORY, None, unpin_vmo vmo offset sz w))
           | Some p \<Rightarrow>
               let (pmo, w1) = PinnedMemoryTokenDispatcher p vmo offset sz is_contiguous
                                 (replicate (unat num_addrs) 0) w
               in
                 (case MapIntoIommu fuel e perms pmo w1 of
                    None \<Rightarrow> None
                  | Some (Inl f) \<Rightarrow> Some (Inl f)
                  | Some (Inr (status, pmo', w2)) \<Rightarrow>
                      if status \<noteq> ZX_OK then
                        (case destructor e pmo' w2 of
                           Inl f \<Rightarrow> Some (Inl f)
                         | Inr w3 \<Rightarrow> Some (Inr (status, None, w3)))
                      else Some (Inr (ZX_OK, Some pmo', w2)))))"

definition Create ::
  "nat \<Rightarrow> env \<Rightarrow> vm_object \<Rightarrow> u64 \<Rightarrow> u64 \<Rightarrow> u32 \<Rightarrow> world
     \<Rightarrow> (fault + zx_status \<times> pmt option \<times> world) option" where
  "Create fuel e vmo offset sz perms w =
     (if \<not> DEBUG_ASSERT e (IS_PAGE_ALIGNED offset \<and> IS_PAGE_ALIGNED sz)
      then Some (Inl DebugAssertFailed)
      else if is_paged vmo then
        (let w1 = call_vmo (VmoCommitRange offset sz) w in
         if CommitRange_result vmo \<noteq> ZX_OK then Some (Inr (CommitRange_result vmo, None, w1))
         else
           let w2 = call_vmo (VmoPin offset sz) w1 in
           if Pin_result vmo \<noteq> ZX_OK then Some (Inr (Pin_result vmo, None, w2))
           else
             let w3 = call_vmo (VmoLookup offset sz) w2;
                 status = Lookup 0 0 (Lookup_pages vmo)
             in Create_pinned fuel e vmo offset sz perms (status = ZX_OK) w3)
      else Create_pinned fuel e vmo offset sz perms True w)"

subsection \<open>Address export\<close>

text \<open>The inner loop of the expanded export: \<open>limit\<close> is \<^verbatim>\<open>extent_base + min_contig\<close>,
  which the loop computes afresh on every test.\<close>

function expand_extent :: "u64 \<Rightarrow> nat \<Rightarrow> u64 \<Rightarrow> nat \<Rightarrow> u64 list \<Rightarrow> nat \<times> u64 list" where
  "expand_extent limit num_pages addr next_idx buf =
     (if addr < limit \<and> next_idx < num_pages
      then expand_extent limit num_pages (addr + PAGE_SIZE) (Suc next_idx) (buf[next_idx := addr])
      else (next_idx, buf))"
  by pat_completeness auto
termination
  by (relation "measure (\<lambda>(limit, num_pages, addr, next_idx, buf). num_pages - next_idx)") auto

function expand_loop :: "u64 \<Rightarrow> u64 list \<Rightarrow> nat \<Rightarrow> nat \<Rightarrow> nat \<Rightarrow> u64 list \<Rightarrow> nat \<times> u64 list" where
  "expand_loop min_contig pmo_addrs num_pages i next_idx buf =
     (if i < length pmo_addrs then
        let extent_base = pmo_addrs ! i;
            (next_idx', buf') =
              expand_extent (extent_base + min_contig) num_pages extent_base next_idx buf
        in expand_loop min_contig pmo_addrs num_pages (Suc i) next_idx' buf'
      else (next_idx, buf))"
  by pat_completeness auto
termination
  by (relation "measure (\<lambda>(min_contig, pmo_addrs, num_pages, i, next_idx, buf).
                  length pmo_addrs - i)") auto

text \<open>\<^verbatim>\<open>memcpy\<close> of \<open>n\<close> elements.\<close>

definition memcpy :: "u64 list \<Rightarrow> u64 list \<Rightarrow> nat \<Rightarrow> u64 list" where
  "memcpy dst src n = take n src @ drop n dst"

text \<open>The caller's buffer is the list \<open>buf\<close>; its length is \<^verbatim>\<open>mapped_addrs_count\<close>.\<close>

definition EncodeAddrs :: "env \<Rightarrow> pmt \<Rightarrow> bool \<Rightarrow> u64 list \<Rightarrow> zx_status \<times> u64 list" where
  "EncodeAddrs e tok compress_results buf =
     (let pmo_addrs = pmt_mapped_addrs tok;
          found_addrs = length pmo_addrs
      in
        if compress_results then
          (if found_addrs \<noteq> length buf then (ZX_ERR_INVALID_ARGS, buf)
           else (ZX_OK, memcpy buf pmo_addrs found_addrs))
        else
          (let num_pages = unat (pmt_size tok div PAGE_SIZE) in
           if num_pages \<noteq> length buf then (ZX_ERR_INVALID_ARGS, buf)
           else (ZX_OK, snd (expand_loop (minimum_contiguity e) pmo_addrs num_pages 0 0 buf))))"

subsection \<open>The state of the address table\<close>

text \<open>An entry is the sentinel, or it is taken for a device address.\<close>

definition all_invalid :: "u64 list \<Rightarrow> bool" where
  "all_invalid addrs = list_all (\<lambda>a. a = UINT64_MAX) addrs"

definition all_valid :: "u64 list \<Rightarrow> bool" where
  "all_valid addrs = list_all (\<lambda>a. a \<noteq> UINT64_MAX) addrs"

definition binary_state :: "u64 list \<Rightarrow> bool" where
  "binary_state addrs = (all_valid addrs \<or> all_invalid addrs)"

text \<open>The sentinel is a reserved value: the IOMMU maps no range in which a chunk starts
  at \<^verbatim>\<open>UINT64_MAX\<close>. (An IOMMU that hands out page-aligned addresses, under a
  minimum contiguity that is even, is one such.)\<close>

definition sentinel_reserved :: "env \<Rightarrow> bool" where
  "sentinel_reserved e =
     (\<forall>n v l j. Map_result e n = (ZX_OK, v, l)
        \<longrightarrow> v + of_nat j * minimum_contiguity e \<noteq> UINT64_MAX)"

subsection \<open>The first error of a walk\<close>

text \<open>What "the first error encountered" means for the statuses of a sequence of calls:
  the first that is not \<^verbatim>\<open>ZX_OK\<close>, and \<^verbatim>\<open>ZX_OK\<close> when there is none.\<close>

fun first_error :: "zx_status list \<Rightarrow> zx_status" where
  "first_error [] = ZX_OK"
| "first_error (s # ss) = (if s \<noteq> ZX_OK then s else first_error ss)"

subsection \<open>A running example\<close>

text \<open>A paged memory object of two pages that are not neighbours in physical memory, an
  initiator whose minimum contiguity is the page size and whose IOMMU maps one page per
  call, each at an address of its own, and the token that \<^verbatim>\<open>Create\<close> builds from
  them.\<close>

definition ex_vmo :: vm_object where
  "ex_vmo = \<lparr>is_paged = True, CommitRange_result = ZX_OK, Pin_result = ZX_OK,
              Lookup_pages = [0x1000, 0x3000]\<rparr>"

definition ex_env :: env where
  "ex_env = \<lparr>minimum_contiguity = 0x1000,
              Map_result = (\<lambda>n. (ZX_OK, 0x10000 * (of_nat n + 1), 0x1000)),
              Unmap_result = (\<lambda>n. ZX_OK),
              debug_asserts = True, new_array_ok = True, new_pmo = Some 7\<rparr>"

definition ex_world :: world where
  "ex_world = \<lparr>iommu_calls = [], vmo_calls = [], bti_pmo_list = [], bti_quarantine = []\<rparr>"

definition ex_pmt :: pmt where
  "ex_pmt = \<lparr>this_ptr = 7, pmt_vmo = ex_vmo, pmt_offset = 0, pmt_size = 0x2000,
              pmt_is_contiguous = False, pmt_mapped_addrs = [0x10000, 0x20000],
              pmt_explicitly_unpinned = False\<rparr>"

text \<open>The same with four pages that are neighbours in physical memory, which the IOMMU
  maps in one call.\<close>

definition ex_contig_vmo :: vm_object where
  "ex_contig_vmo = \<lparr>is_paged = True, CommitRange_result = ZX_OK, Pin_result = ZX_OK,
                     Lookup_pages = [0x1000, 0x2000, 0x3000, 0x4000]\<rparr>"

definition ex_contig_env :: env where
  "ex_contig_env = \<lparr>minimum_contiguity = 0x1000,
                     Map_result = (\<lambda>n. (ZX_OK, 0x10000, 0x4000)),
                     Unmap_result = (\<lambda>n. ZX_OK),
                     debug_asserts = True, new_array_ok = True, new_pmo = Some 7\<rparr>"

definition ex_contig_pmt :: pmt where
  "ex_contig_pmt = \<lparr>this_ptr = 7, pmt_vmo = ex_contig_vmo, pmt_offset = 0, pmt_size = 0x4000,
                     pmt_is_contiguous = True,
                     pmt_mapped_addrs = [0x10000, 0x11000, 0x12000, 0x13000],
                     pmt_explicitly_unpinned = False\<rparr>"

section \<open>Properties\<close>

declare invalidate_loop.simps [simp del]
declare unmap_walk.simps [simp del]
declare stride_loop.simps [simp del]
declare fill_chunks.simps [simp del]
declare expand_extent.simps [simp del]
declare expand_loop.simps [simp del]

subsection \<open>Invalidation and the unmap walk\<close>

lemma length_invalidate_loop [simp]: "length (invalidate_loop i addrs) = length addrs"
  by (induction i addrs rule: invalidate_loop.induct) (subst invalidate_loop.simps, simp)

lemma invalidate_loop_eq:
  "invalidate_loop i addrs = take i addrs @ replicate (length addrs - i) UINT64_MAX"
proof (induction i addrs rule: invalidate_loop.induct)
  case (1 i addrs)
  show ?case
  proof (cases "i < length addrs")
    case True
    have "invalidate_loop i addrs = invalidate_loop (Suc i) (addrs[i := UINT64_MAX])"
      using True by (subst invalidate_loop.simps) simp
    also have "\<dots> = take (Suc i) (addrs[i := UINT64_MAX])
                       @ replicate (length addrs - Suc i) UINT64_MAX"
      using 1 True by simp
    also have "take (Suc i) (addrs[i := UINT64_MAX]) = take i addrs @ [UINT64_MAX]"
      using True by (simp add: take_Suc_conv_app_nth)
    also have "(take i addrs @ [UINT64_MAX]) @ replicate (length addrs - Suc i) UINT64_MAX
               = take i addrs @ replicate (length addrs - i) UINT64_MAX"
      using True by (simp add: replicate_Suc [symmetric] Suc_diff_Suc del: replicate_Suc)
    finally show ?thesis .
  next
    case False
    then show ?thesis by (subst invalidate_loop.simps) simp
  qed
qed

lemma Invalidate_eq:
  "InvalidateMappedAddrsLocked tok
     = tok\<lparr>pmt_mapped_addrs := replicate (length (pmt_mapped_addrs tok)) UINT64_MAX\<rparr>"
  by (simp add: InvalidateMappedAddrsLocked_def invalidate_loop_eq)

lemma Invalidate_addrs:
  "pmt_mapped_addrs (InvalidateMappedAddrsLocked tok)
     = replicate (length (pmt_mapped_addrs tok)) UINT64_MAX"
  by (simp add: Invalidate_eq)

lemma all_invalid_replicate [simp]: "all_invalid (replicate n UINT64_MAX)"
  by (simp add: all_invalid_def list_all_iff)

lemma binary_state_hd:
  "binary_state addrs \<Longrightarrow> addrs \<noteq> [] \<Longrightarrow> hd addrs = UINT64_MAX \<Longrightarrow> all_invalid addrs"
  by (cases addrs) (auto simp: binary_state_def all_valid_def all_invalid_def)

text \<open>The walk, one iteration at a time.\<close>

lemma unmap_walk_done:
  "\<not> i < length addrs \<Longrightarrow> unmap_walk e addrs i remaining status w = Inr (status, w)"
  by (subst unmap_walk.simps) simp

lemma unmap_walk_break:
  "i < length addrs \<Longrightarrow> addrs ! i = UINT64_MAX \<Longrightarrow>
     unmap_walk e addrs i remaining status w = Inr (status, w)"
  by (subst unmap_walk.simps) simp

lemma unmap_walk_next:
  "i < length addrs \<Longrightarrow> addrs ! i \<noteq> UINT64_MAX \<Longrightarrow>
   unmap_walk e addrs i remaining status w =
     (let sz = min remaining (minimum_contiguity e) in
      if \<not> DEBUG_ASSERT e (sz = minimum_contiguity e \<or> i = length addrs - 1)
      then Inl DebugAssertFailed
      else if \<not> DEBUG_ASSERT e (Unmap_result e (length (iommu_calls w)) = ZX_OK)
      then Inl DebugAssertFailed
      else unmap_walk e addrs (Suc i) (remaining - sz)
             (if Unmap_result e (length (iommu_calls w)) \<noteq> ZX_OK \<and> status = ZX_OK
              then Unmap_result e (length (iommu_calls w)) else status)
             (w\<lparr>iommu_calls := iommu_calls w @ [IommuUnmap (addrs ! i) sz]\<rparr>))"
  by (subst unmap_walk.simps) (simp add: Let_def iommu_Unmap_def)

lemmas unmap_walk_eval = unmap_walk_done unmap_walk_break unmap_walk_next

lemma unmap_walk_world:
  "unmap_walk e addrs i remaining status w = Inr (status', w') \<Longrightarrow>
     vmo_calls w' = vmo_calls w \<and> bti_pmo_list w' = bti_pmo_list w
     \<and> bti_quarantine w' = bti_quarantine w"
proof (induction e addrs i remaining status w rule: unmap_walk.induct)
  case (1 e addrs i remaining status w)
  from "1.prems" "1.IH" show ?case
    by (subst (asm) unmap_walk.simps)
       (auto simp: Let_def iommu_Unmap_def split: if_splits)
qed

text \<open>What a call of \<^verbatim>\<open>UnmapFromIommuLocked\<close> that returns has done: nothing, when the
  first entry was the sentinel; otherwise it has reset every entry. It leaves the memory
  object and the initiator's lists alone.\<close>

lemma Unmap_Inr_cases:
  assumes "UnmapFromIommuLocked e tok w = Inr (st, tok', w')"
  shows "pmt_mapped_addrs tok \<noteq> []"
    and "(hd (pmt_mapped_addrs tok) = UINT64_MAX \<and> st = ZX_OK \<and> tok' = tok \<and> w' = w)
         \<or> (hd (pmt_mapped_addrs tok) \<noteq> UINT64_MAX
             \<and> tok' = InvalidateMappedAddrsLocked tok)"
    and "vmo_calls w' = vmo_calls w"
    and "bti_pmo_list w' = bti_pmo_list w"
    and "bti_quarantine w' = bti_quarantine w"
  using assms
  by (auto simp: UnmapFromIommuLocked_def iommu_Unmap_def Let_def
           split: list.splits if_splits sum.splits prod.splits
           dest: unmap_walk_world)

lemma Unmap_noop:
  "pmt_mapped_addrs tok = a0 # rest \<Longrightarrow> a0 = UINT64_MAX \<Longrightarrow>
     UnmapFromIommuLocked e tok w = Inr (ZX_OK, tok, w)"
  by (simp add: UnmapFromIommuLocked_def)

lemma Unmap_all_invalid:
  assumes "UnmapFromIommuLocked e tok w = Inr (st, tok', w')"
    and "binary_state (pmt_mapped_addrs tok)"
  shows "all_invalid (pmt_mapped_addrs tok')"
  using Unmap_Inr_cases(1,2) [OF assms(1)] assms(2)
  by (auto simp: Invalidate_addrs dest: binary_state_hd)

lemma Unmap_again:
  assumes "UnmapFromIommuLocked e tok w = Inr (st, tok', w')"
  shows "UnmapFromIommuLocked e tok' w' = Inr (ZX_OK, tok', w')"
proof -
  from Unmap_Inr_cases(1) [OF assms] obtain a0 rest where c: "pmt_mapped_addrs tok = a0 # rest"
    by (cases "pmt_mapped_addrs tok") auto
  from Unmap_Inr_cases(2) [OF assms] show ?thesis
  proof
    assume "hd (pmt_mapped_addrs tok) = UINT64_MAX \<and> st = ZX_OK \<and> tok' = tok \<and> w' = w"
    with c show ?thesis by (simp add: Unmap_noop)
  next
    assume "hd (pmt_mapped_addrs tok) \<noteq> UINT64_MAX \<and> tok' = InvalidateMappedAddrsLocked tok"
    then have "pmt_mapped_addrs tok' = UINT64_MAX # replicate (length rest) UINT64_MAX"
      using c by (simp add: Invalidate_addrs)
    then show ?thesis by (rule Unmap_noop) simp
  qed
qed

lemma ex_unmap:
  "UnmapFromIommuLocked ex_env ex_pmt ex_world
     = Inr (ZX_OK, ex_pmt\<lparr>pmt_mapped_addrs := [UINT64_MAX, UINT64_MAX]\<rparr>,
            ex_world\<lparr>iommu_calls := [IommuUnmap 0x10000 0x1000, IommuUnmap 0x20000 0x1000]\<rparr>)"
  by (simp add: UnmapFromIommuLocked_def ex_pmt_def ex_env_def ex_world_def unmap_walk_eval
        UINT64_MAX_def DEBUG_ASSERT_def Let_def Invalidate_eq)

lemma ex_binary: "binary_state (pmt_mapped_addrs ex_pmt)"
  by (simp add: binary_state_def all_valid_def ex_pmt_def UINT64_MAX_def)

subsection \<open>Unmapping twice\<close>

text \<open>
  C4. When the first entry of the address table is the sentinel, the unmap algorithm
  returns \<^verbatim>\<open>ZX_OK\<close> and changes nothing: the token and the collaborators' state,
  with the list of IOMMU calls in it, are as they were. Hence, after a run of the
  unmap algorithm that returns, on a table that was all addresses or all sentinel,
  every entry is the sentinel, and a second run returns \<^verbatim>\<open>ZX_OK\<close> from that
  same state into that same state: it makes no IOMMU call.
\<close>

theorem unmap_twice_is_noop:
  "(pmt_mapped_addrs tok1 = a0 # rest \<and> a0 = UINT64_MAX \<longrightarrow>
      UnmapFromIommuLocked e1 tok1 w1 = Inr (ZX_OK, tok1, w1))
   \<and> (binary_state (pmt_mapped_addrs tok) \<and> UnmapFromIommuLocked e tok w = Inr (st, tok', w') \<longrightarrow>
      all_invalid (pmt_mapped_addrs tok')
      \<and> UnmapFromIommuLocked e tok' w' = Inr (ZX_OK, tok', w'))"
  using Unmap_noop Unmap_again Unmap_all_invalid by blast

theorem unmap_twice_is_noop_witness:
  "UnmapFromIommuLocked ex_env (ex_pmt\<lparr>pmt_mapped_addrs := [UINT64_MAX, UINT64_MAX]\<rparr>) ex_world
     = Inr (ZX_OK, ex_pmt\<lparr>pmt_mapped_addrs := [UINT64_MAX, UINT64_MAX]\<rparr>, ex_world)
   \<and> binary_state (pmt_mapped_addrs ex_pmt)
   \<and> UnmapFromIommuLocked ex_env ex_pmt ex_world
       = Inr (ZX_OK, ex_pmt\<lparr>pmt_mapped_addrs := [UINT64_MAX, UINT64_MAX]\<rparr>,
              ex_world\<lparr>iommu_calls := [IommuUnmap 0x10000 0x1000, IommuUnmap 0x20000 0x1000]\<rparr>)
   \<and> all_invalid [UINT64_MAX, UINT64_MAX]
   \<and> UnmapFromIommuLocked ex_env (ex_pmt\<lparr>pmt_mapped_addrs := [UINT64_MAX, UINT64_MAX]\<rparr>)
         (ex_world\<lparr>iommu_calls := [IommuUnmap 0x10000 0x1000, IommuUnmap 0x20000 0x1000]\<rparr>)
       = Inr (ZX_OK, ex_pmt\<lparr>pmt_mapped_addrs := [UINT64_MAX, UINT64_MAX]\<rparr>,
              ex_world\<lparr>iommu_calls := [IommuUnmap 0x10000 0x1000, IommuUnmap 0x20000 0x1000]\<rparr>)"
proof -
  have h: "pmt_mapped_addrs (ex_pmt\<lparr>pmt_mapped_addrs := [UINT64_MAX, UINT64_MAX]\<rparr>)
             = UINT64_MAX # [UINT64_MAX] \<and> UINT64_MAX = UINT64_MAX"
    by simp
  show ?thesis
    using unmap_twice_is_noop [of "ex_pmt\<lparr>pmt_mapped_addrs := [UINT64_MAX, UINT64_MAX]\<rparr>"
        UINT64_MAX "[UINT64_MAX]" ex_env ex_world ex_pmt ex_env ex_world ZX_OK
        "ex_pmt\<lparr>pmt_mapped_addrs := [UINT64_MAX, UINT64_MAX]\<rparr>"
        "ex_world\<lparr>iommu_calls := [IommuUnmap 0x10000 0x1000, IommuUnmap 0x20000 0x1000]\<rparr>"]
      ex_binary h ex_unmap
    by simp
qed

subsection \<open>The last handle goes away\<close>


lemma ex_zero_handles:
  "on_zero_handles ex_env ex_pmt ex_world
     = Inr (ex_pmt\<lparr>pmt_mapped_addrs := [UINT64_MAX, UINT64_MAX]\<rparr>,
            ex_world\<lparr>iommu_calls := [IommuUnmap 0x10000 0x1000, IommuUnmap 0x20000 0x1000],
                      bti_quarantine := [7]\<rparr>)"
  by (simp add: on_zero_handles_def ex_unmap Quarantine_def) (simp add: ex_pmt_def ex_world_def)


subsection \<open>Destruction\<close>

lemma destructor_Inr:
  assumes "destructor e tok w = Inr w'"
  shows "\<exists>tok1 w1. UnmapFromIommuLocked e tok w = Inr (ZX_OK, tok1, w1)
                 \<and> iommu_calls w' = iommu_calls w1"
    and "vmo_calls w' = vmo_calls w @ (if is_paged (pmt_vmo tok)
                                       then [VmoUnpin (pmt_offset tok) (pmt_size tok)] else [])"
    and "bti_pmo_list w' = remove1 (this_ptr tok) (bti_pmo_list w)"
    and "bti_quarantine w' = bti_quarantine w"
proof -
  from assms obtain tok1 w1 where u: "UnmapFromIommuLocked e tok w = Inr (ZX_OK, tok1, w1)"
    and w': "w' = RemovePmo (this_ptr tok1)
                   (if is_paged (pmt_vmo tok1)
                    then call_vmo (VmoUnpin (pmt_offset tok1) (pmt_size tok1)) w1 else w1)"
    by (auto simp: destructor_def Let_def split: sum.splits prod.splits if_splits)
  have same: "this_ptr tok1 = this_ptr tok" "pmt_vmo tok1 = pmt_vmo tok"
      "pmt_offset tok1 = pmt_offset tok" "pmt_size tok1 = pmt_size tok"
    using Unmap_Inr_cases(2) [OF u] by (auto simp: Invalidate_eq)
  show "\<exists>tok1 w1. UnmapFromIommuLocked e tok w = Inr (ZX_OK, tok1, w1)
                 \<and> iommu_calls w' = iommu_calls w1"
    using u w' by (auto simp: RemovePmo_def call_vmo_def)
  show "vmo_calls w' = vmo_calls w @ (if is_paged (pmt_vmo tok)
                                       then [VmoUnpin (pmt_offset tok) (pmt_size tok)] else [])"
    using Unmap_Inr_cases(3) [OF u] w' same by (auto simp: RemovePmo_def call_vmo_def)
  show "bti_pmo_list w' = remove1 (this_ptr tok) (bti_pmo_list w)"
    using Unmap_Inr_cases(4) [OF u] w' same by (auto simp: RemovePmo_def call_vmo_def)
  show "bti_quarantine w' = bti_quarantine w"
    using Unmap_Inr_cases(5) [OF u] w' same by (auto simp: RemovePmo_def call_vmo_def)
qed

subsection \<open>The scatter-gather walk ends\<close>

lemma unat_sub_min:
  fixes r l :: u64
  assumes "r \<noteq> 0" "l \<noteq> 0"
  shows "unat (r - min l r) < unat r"
proof -
  have "min l r \<le> r" by simp
  then have "unat (r - min l r) = unat r - unat (min l r)" by (rule unat_sub)
  moreover have "0 < unat (min l r)" using assms by (simp add: min_def unat_gt_0)
  moreover have "0 < unat r" using assms by (simp add: unat_gt_0)
  ultimately show ?thesis by simp
qed

lemma map_sg_loop_returns:
  assumes pos: "\<forall>n v l. Map_result e n = (ZX_OK, v, l) \<longrightarrow> l \<noteq> 0"
  shows "unat remaining < fuel \<Longrightarrow>
           \<exists>r. map_sg_loop fuel e perms tok remaining curr_offset next_addr_idx w = Some r"
proof (induction fuel arbitrary: tok remaining curr_offset next_addr_idx w)
  case 0
  then show ?case by simp
next
  case (Suc fuel)
  show ?case
  proof (cases "remaining = 0")
    case True
    then show ?thesis by simp
  next
    case False
    obtain st v l where m: "Map_result e (length (iommu_calls w)) = (st, v, l)"
      by (cases "Map_result e (length (iommu_calls w))") auto
    show ?thesis
    proof (cases "st = ZX_OK")
      case ok: True
      with pos m have "l \<noteq> 0" by blast
      with False have "unat (remaining - min l remaining) < unat remaining"
        by (rule unat_sub_min)
      with Suc.prems have "unat (remaining - min l remaining) < fuel" by simp
      from Suc.IH [OF this] show ?thesis
        using False m ok
        by (auto simp: iommu_Map_def Let_def split: sum.splits prod.splits)
    next
      case False
      with \<open>remaining \<noteq> 0\<close> m show ?thesis
        by (auto simp: iommu_Map_def Let_def split: sum.splits prod.splits)
    qed
  qed
qed

text \<open>
  C10. The scatter-gather mapping walk returns whenever every map call that succeeds
  reports a mapped length that is not 0, whatever these lengths are, also when one is
  greater than the remaining length: the remaining count goes down by
  \<open>min mapped_len remaining\<close>, which is at least 1, in every iteration, so more
  iterations than the size of the range are never needed.
\<close>

theorem scatter_gather_walk_terminates:
  assumes "\<forall>n v l. Map_result e n = (ZX_OK, v, l) \<longrightarrow> l \<noteq> 0"
    and "\<not> pmt_is_contiguous tok"
    and "unat (pmt_size tok) < fuel"
  shows "\<exists>r. MapIntoIommu fuel e perms tok w = Some r"
  using map_sg_loop_returns [OF assms(1) assms(3)] assms(2)
  by (simp add: MapIntoIommu_def)

theorem scatter_gather_walk_terminates_witness:
  "\<exists>r. MapIntoIommu 4097
         (ex_env\<lparr>minimum_contiguity := 0x2000, Map_result := (\<lambda>n. (ZX_OK, 0x10000, 0x2000))\<rparr>) 0
         (ex_pmt\<lparr>pmt_size := 0x1000, pmt_mapped_addrs := [UINT64_MAX]\<rparr>) ex_world = Some r"
  using scatter_gather_walk_terminates
    [of "ex_env\<lparr>minimum_contiguity := 0x2000, Map_result := (\<lambda>n. (ZX_OK, 0x10000, 0x2000))\<rparr>"
        "ex_pmt\<lparr>pmt_size := 0x1000, pmt_mapped_addrs := [UINT64_MAX]\<rparr>" 4097 0 ex_world]
  by (simp add: ex_env_def ex_pmt_def)

subsection \<open>What mapping leaves alone\<close>

lemma length_stride_loop [simp]: "length (stride_loop mc i addrs) = length addrs"
  by (induction mc i addrs rule: stride_loop.induct) (subst stride_loop.simps, simp)

lemma fill_chunks_length:
  "fill_chunks mc addrs idx v m = Inr (addrs', idx') \<Longrightarrow> length addrs' = length addrs"
proof (induction mc addrs idx v m rule: fill_chunks.induct)
  case (1 mc addrs idx v m)
  from "1.prems" "1.IH" show ?case
    by (subst (asm) fill_chunks.simps) (auto simp: Let_def split: if_splits)
qed

text \<open>Mapping touches the table and the list of IOMMU calls, nothing else.\<close>

lemma map_contig_loop_world:
  "map_contig_loop fuel e perms tok base remaining cur w = Some (r, w') \<Longrightarrow>
     w' = w\<lparr>iommu_calls := iommu_calls w'\<rparr>"
proof (induction fuel arbitrary: base remaining cur w)
  case 0
  then show ?case by simp
next
  case (Suc fuel)
  from Suc.prems show ?case
    by (auto simp: Let_def iommu_Map_def iommu_Unmap_def split: if_splits prod.splits
             dest!: Suc.IH)
qed

lemma map_contig_loop_Inl:
  "map_contig_loop fuel e perms tok base remaining cur w = Some (Inl s, w') \<Longrightarrow> s \<noteq> ZX_OK"
proof (induction fuel arbitrary: base remaining cur w)
  case 0
  then show ?case by simp
next
  case (Suc fuel)
  from Suc.prems show ?case
    by (auto simp: Let_def iommu_Map_def iommu_Unmap_def split: if_splits prod.splits
             dest!: Suc.IH)
qed

lemma Unmap_frame:
  assumes "UnmapFromIommuLocked e tok w = Inr (st, tok', w')"
  shows "tok' = tok\<lparr>pmt_mapped_addrs := pmt_mapped_addrs tok'\<rparr>"
    and "length (pmt_mapped_addrs tok') = length (pmt_mapped_addrs tok)"
    and "w' = w\<lparr>iommu_calls := iommu_calls w'\<rparr>"
proof -
  show "tok' = tok\<lparr>pmt_mapped_addrs := pmt_mapped_addrs tok'\<rparr>"
    and "length (pmt_mapped_addrs tok') = length (pmt_mapped_addrs tok)"
    using Unmap_Inr_cases(2) [OF assms] by (auto simp: Invalidate_eq)
  show "w' = w\<lparr>iommu_calls := iommu_calls w'\<rparr>"
    using Unmap_Inr_cases(3-5) [OF assms] by (cases w, cases w') simp
qed

lemma map_sg_loop_frame:
  "map_sg_loop fuel e perms tok remaining cur idx w = Some (Inr (st, tok', w')) \<Longrightarrow>
     tok' = tok\<lparr>pmt_mapped_addrs := pmt_mapped_addrs tok'\<rparr>
     \<and> length (pmt_mapped_addrs tok') = length (pmt_mapped_addrs tok)
     \<and> w' = w\<lparr>iommu_calls := iommu_calls w'\<rparr>"
proof (induction fuel arbitrary: tok remaining cur idx w)
  case 0
  then show ?case by simp
next
  case (Suc fuel)
  show ?case
  proof (cases "remaining = 0")
    case True
    with Suc.prems show ?thesis by (auto split: if_splits)
  next
    case False
    obtain s v l where m: "Map_result e (length (iommu_calls w)) = (s, v, l)"
      by (cases "Map_result e (length (iommu_calls w))") auto
    let ?w1 = "w\<lparr>iommu_calls := iommu_calls w @ [IommuMap cur remaining perms]\<rparr>"
    show ?thesis
    proof (cases "s = ZX_OK")
      case True
      with Suc.prems False m obtain addrs' idx' where
        f: "fill_chunks (minimum_contiguity e) (pmt_mapped_addrs tok) idx v l = Inr (addrs', idx')"
        and r: "map_sg_loop fuel e perms (tok\<lparr>pmt_mapped_addrs := addrs'\<rparr>)
                  (remaining - min l remaining) (cur + l) idx' ?w1 = Some (Inr (st, tok', w'))"
        by (auto simp: Let_def iommu_Map_def split: if_splits sum.splits prod.splits)
      from Suc.IH [OF r] fill_chunks_length [OF f] show ?thesis
        by (cases w, cases w') auto
    next
      case False
      with Suc.prems \<open>remaining \<noteq> 0\<close> m obtain err where
        u: "UnmapFromIommuLocked e tok ?w1 = Inr (err, tok', w')"
        by (auto simp: Let_def iommu_Map_def split: if_splits sum.splits prod.splits)
      from Unmap_frame [OF u] show ?thesis
        by (cases w, cases w') auto
    qed
  qed
qed

lemma MapIntoIommu_frame:
  assumes "MapIntoIommu fuel e perms tok w = Some (Inr (st, tok', w'))"
  shows "tok' = tok\<lparr>pmt_mapped_addrs := pmt_mapped_addrs tok'\<rparr>"
    and "length (pmt_mapped_addrs tok') = length (pmt_mapped_addrs tok)"
    and "w' = w\<lparr>iommu_calls := iommu_calls w'\<rparr>"
proof -
  have "tok' = tok\<lparr>pmt_mapped_addrs := pmt_mapped_addrs tok'\<rparr>
     \<and> length (pmt_mapped_addrs tok') = length (pmt_mapped_addrs tok)
     \<and> w' = w\<lparr>iommu_calls := iommu_calls w'\<rparr>"
  proof (cases "pmt_is_contiguous tok")
    case True
    with assms show ?thesis
      by (auto simp: MapIntoIommu_def split: option.splits sum.splits prod.splits list.splits
               dest: map_contig_loop_world)
  next
    case False
    with assms show ?thesis
      by (simp add: MapIntoIommu_def map_sg_loop_frame)
  qed
  then show "tok' = tok\<lparr>pmt_mapped_addrs := pmt_mapped_addrs tok'\<rparr>"
    and "length (pmt_mapped_addrs tok') = length (pmt_mapped_addrs tok)"
    and "w' = w\<lparr>iommu_calls := iommu_calls w'\<rparr>"
    by simp_all
qed

text \<open>With an empty table, no range of a size other than 0 is mapped with success.\<close>

lemma fill_chunks_Nil:
  "m \<noteq> 0 \<Longrightarrow> fill_chunks mc [] idx v m = Inl OutOfBounds"
  "fill_chunks mc addrs idx v 0 = Inr (addrs, idx)"
  by (subst fill_chunks.simps, simp)+

lemma map_sg_loop_empty_table:
  "pmt_mapped_addrs tok = [] \<Longrightarrow> remaining \<noteq> 0 \<Longrightarrow>
     map_sg_loop fuel e perms tok remaining cur idx w \<noteq> Some (Inr (st, tok', w'))"
proof (induction fuel arbitrary: tok cur idx w)
  case 0
  then show ?case by simp
next
  case (Suc fuel)
  obtain s v l where m: "Map_result e (length (iommu_calls w)) = (s, v, l)"
    by (cases "Map_result e (length (iommu_calls w))") auto
  show ?case
  proof (cases "s = ZX_OK \<and> l = 0")
    case True
    have "map_sg_loop fuel e perms (tok\<lparr>pmt_mapped_addrs := []\<rparr>) remaining (cur + 0) idx
            (w\<lparr>iommu_calls := iommu_calls w @ [IommuMap cur remaining perms]\<rparr>)
          \<noteq> Some (Inr (st, tok', w'))"
      by (rule Suc.IH) (simp_all add: Suc.prems)
    with True Suc.prems m show ?thesis
      by (auto simp: Let_def iommu_Map_def fill_chunks_Nil)
  next
    case False
    with Suc.prems m show ?thesis
      by (auto simp: Let_def iommu_Map_def fill_chunks_Nil UnmapFromIommuLocked_def)
  qed
qed

lemma MapIntoIommu_table_nonempty:
  assumes "MapIntoIommu fuel e perms tok w = Some (Inr (ZX_OK, tok', w'))"
    and "pmt_size tok \<noteq> 0"
  shows "pmt_mapped_addrs tok \<noteq> []"
proof (cases "pmt_is_contiguous tok")
  case True
  with assms(1) show ?thesis
    by (auto simp: MapIntoIommu_def split: option.splits sum.splits prod.splits list.splits
             dest: map_contig_loop_Inl)
next
  case False
  with assms map_sg_loop_empty_table show ?thesis
    by (auto simp: MapIntoIommu_def)
qed

subsection \<open>Rounding up to the minimum contiguity\<close>

lemma and_not_mask_div:
  fixes x :: u64
  shows "(x AND NOT (mask k)) div 2 ^ k = x div 2 ^ k"
proof -
  have "drop_bit k (x AND NOT (mask k)) = drop_bit k x"
    by (rule bit_eqI) (auto simp: bit_simps dest: bit_imp_le_length)
  then show ?thesis by (simp add: drop_bit_eq_div)
qed

lemma unat_2p:
  assumes "k < 64"
  shows "unat (2 ^ k :: u64) = 2 ^ k"
proof -
  have "unat (of_nat (2 ^ k) :: u64) = 2 ^ k mod 2 ^ LENGTH(64)"
    by (rule unat_of_nat)
  moreover have "(2::nat) ^ k < 2 ^ LENGTH(64)"
    using assms by (intro power_strict_increasing) simp_all
  ultimately show ?thesis by simp
qed

lemma ROUNDUP_div:
  assumes "k < 64"
  shows "unat (ROUNDUP sz (2 ^ k) div 2 ^ k) = ((unat sz + (2 ^ k - 1)) mod 2 ^ 64) div 2 ^ k"
proof -
  have "ROUNDUP sz (2 ^ k) div 2 ^ k = (sz + (2 ^ k - 1)) div 2 ^ k"
    unfolding ROUNDUP_def mask_eq_exp_minus_1 [symmetric] by (rule and_not_mask_div)
  moreover have "unat (2 ^ k - 1 :: u64) = 2 ^ k - 1"
    using assms by (simp add: unat_sub unat_2p word_le_nat_alt)
  ultimately show ?thesis
    using assms by (simp add: unat_div unat_2p unat_word_ariths)
qed

lemma ROUNDUP_div_exact:
  assumes "k < 64" "unat sz + 2 ^ k - 1 < 2 ^ 64"
  shows "unat (ROUNDUP sz (2 ^ k) div 2 ^ k) = (unat sz + 2 ^ k - 1) div 2 ^ k"
  using assms by (simp add: ROUNDUP_div)

lemma ROUNDUP_div_overflow:
  assumes "k < 64" "\<not> unat sz + 2 ^ k - 1 < (2::nat) ^ 64"
  shows "unat (ROUNDUP sz (2 ^ k) div 2 ^ k) = 0"
proof -
  define N :: nat where "N = 2 ^ 64"
  define K :: nat where "K = 2 ^ k"
  have lt: "unat sz < N" unfolding N_def using unsigned_less [of sz] by simp
  have K: "K \<le> N" "0 < K"
    unfolding N_def K_def using assms(1) by (simp_all add: power_increasing del: power_numeral)
  have ge: "N \<le> unat sz + (K - 1)" using assms(2) K unfolding N_def K_def by simp
  have "(unat sz + (K - 1)) mod N = (unat sz + (K - 1) - N) mod N"
    using ge by (rule le_mod_geq)
  also have "\<dots> = unat sz + (K - 1) - N"
    using lt K by (intro mod_less) linarith
  finally have "(unat sz + (K - 1)) mod N div K = 0"
    using lt K by simp
  then show ?thesis
    using assms(1) unfolding N_def K_def by (simp only: ROUNDUP_div)
qed

subsection \<open>Creation\<close>

text \<open>What \<^verbatim>\<open>Create\<close> has done when it hands out a token.\<close>

lemma Create_pinned_OK:
  assumes "Create_pinned fuel e vmo offset sz perms contig w = Some (Inr (ZX_OK, Some tok, w'))"
  shows "\<exists>p. new_pmo e = Some p
           \<and> MapIntoIommu fuel e perms
                (fst (PinnedMemoryTokenDispatcher p vmo offset sz contig
                   (replicate (unat (ROUNDUP sz (minimum_contiguity e) div minimum_contiguity e)) 0) w))
                (AddPmoLocked p w)
              = Some (Inr (ZX_OK, tok, w'))"
  using assms
  by (auto simp: Create_pinned_def Let_def PinnedMemoryTokenDispatcher_def
           split: if_splits option.splits sum.splits prod.splits)

lemma Create_pinned_token:
  assumes "Create_pinned fuel e vmo offset sz perms contig w = Some (Inr (ZX_OK, Some tok, w'))"
  shows "\<exists>p. new_pmo e = Some p \<and> this_ptr tok = p \<and> bti_pmo_list w' = bti_pmo_list w @ [p]"
    and "pmt_vmo tok = vmo" and "pmt_offset tok = offset" and "pmt_size tok = sz"
    and "pmt_is_contiguous tok = contig" and "\<not> pmt_explicitly_unpinned tok"
    and "length (pmt_mapped_addrs tok)
           = unat (ROUNDUP sz (minimum_contiguity e) div minimum_contiguity e)"
    and "sz \<noteq> 0 \<longrightarrow> pmt_mapped_addrs tok \<noteq> []"
    and "vmo_calls w' = vmo_calls w" and "bti_quarantine w' = bti_quarantine w"
proof -
  from Create_pinned_OK [OF assms] obtain p where p: "new_pmo e = Some p"
    and m: "MapIntoIommu fuel e perms
              (fst (PinnedMemoryTokenDispatcher p vmo offset sz contig
                 (replicate (unat (ROUNDUP sz (minimum_contiguity e) div minimum_contiguity e)) 0) w))
              (AddPmoLocked p w)
            = Some (Inr (ZX_OK, tok, w'))"
    by blast
  note f = MapIntoIommu_frame [OF m]
  show "\<exists>p. new_pmo e = Some p \<and> this_ptr tok = p \<and> bti_pmo_list w' = bti_pmo_list w @ [p]"
    using p f(1,3)
    by (metis (no_types, lifting) AddPmoLocked_def PinnedMemoryTokenDispatcher_def Invalidate_eq
        fst_conv pmt.select_convs(1) pmt.surjective pmt.update_convs(6)
        world.select_convs(3) world.surjective world.update_convs(1,3))
  show "pmt_vmo tok = vmo" "pmt_offset tok = offset" "pmt_size tok = sz"
    "pmt_is_contiguous tok = contig" "\<not> pmt_explicitly_unpinned tok"
    using f(1) by (cases tok, simp add: PinnedMemoryTokenDispatcher_def Invalidate_eq)+
  show "length (pmt_mapped_addrs tok)
           = unat (ROUNDUP sz (minimum_contiguity e) div minimum_contiguity e)"
    using f(2) by (simp add: PinnedMemoryTokenDispatcher_def Invalidate_eq)
  show "sz \<noteq> 0 \<longrightarrow> pmt_mapped_addrs tok \<noteq> []"
    using MapIntoIommu_table_nonempty [OF m] f(2)
    by (auto simp: PinnedMemoryTokenDispatcher_def Invalidate_eq)
  show "vmo_calls w' = vmo_calls w" "bti_quarantine w' = bti_quarantine w"
    using f(3) by (cases w', simp add: AddPmoLocked_def)+
qed

lemma Create_OK:
  assumes "Create fuel e vmo offset sz perms w = Some (Inr (ZX_OK, Some tok, w'))"
  shows "\<exists>p. new_pmo e = Some p \<and> this_ptr tok = p \<and> bti_pmo_list w' = bti_pmo_list w @ [p]"
    and "pmt_vmo tok = vmo" and "pmt_offset tok = offset" and "pmt_size tok = sz"
    and "pmt_is_contiguous tok = (is_paged vmo \<longrightarrow> Lookup 0 0 (Lookup_pages vmo) = ZX_OK)"
    and "\<not> pmt_explicitly_unpinned tok"
    and "length (pmt_mapped_addrs tok)
           = unat (ROUNDUP sz (minimum_contiguity e) div minimum_contiguity e)"
    and "sz \<noteq> 0 \<longrightarrow> pmt_mapped_addrs tok \<noteq> []"
    and "vmo_calls w' = vmo_calls w @ (if is_paged vmo
            then [VmoCommitRange offset sz, VmoPin offset sz, VmoLookup offset sz] else [])"
    and "bti_quarantine w' = bti_quarantine w"
proof -
  define w0 where "w0 = (if is_paged vmo
      then call_vmo (VmoLookup offset sz) (call_vmo (VmoPin offset sz)
             (call_vmo (VmoCommitRange offset sz) w))
      else w)"
  define contig where "contig = (is_paged vmo \<longrightarrow> Lookup 0 0 (Lookup_pages vmo) = ZX_OK)"
  from assms have c: "Create_pinned fuel e vmo offset sz perms contig w0
                        = Some (Inr (ZX_OK, Some tok, w'))"
    by (auto simp: Create_def Let_def w0_def contig_def split: if_splits)
  have w0: "vmo_calls w0 = vmo_calls w @ (if is_paged vmo
            then [VmoCommitRange offset sz, VmoPin offset sz, VmoLookup offset sz] else [])"
    "bti_quarantine w0 = bti_quarantine w" "bti_pmo_list w0 = bti_pmo_list w"
    by (simp_all add: w0_def call_vmo_def)
  note t = Create_pinned_token [OF c]
  show "\<exists>p. new_pmo e = Some p \<and> this_ptr tok = p \<and> bti_pmo_list w' = bti_pmo_list w @ [p]"
    using t(1) w0 by simp
  show "pmt_vmo tok = vmo" "pmt_offset tok = offset" "pmt_size tok = sz"
    "\<not> pmt_explicitly_unpinned tok"
    "length (pmt_mapped_addrs tok)
           = unat (ROUNDUP sz (minimum_contiguity e) div minimum_contiguity e)"
    "sz \<noteq> 0 \<longrightarrow> pmt_mapped_addrs tok \<noteq> []"
    by (fact t)+
  show "pmt_is_contiguous tok = (is_paged vmo \<longrightarrow> Lookup 0 0 (Lookup_pages vmo) = ZX_OK)"
    using t(5) by (simp add: contig_def)
  show "vmo_calls w' = vmo_calls w @ (if is_paged vmo
            then [VmoCommitRange offset sz, VmoPin offset sz, VmoLookup offset sz] else [])"
    using t(9) w0 by simp
  show "bti_quarantine w' = bti_quarantine w"
    using t(10) w0 by simp
qed

lemma Create_table_length:
  assumes c: "Create fuel e vmo offset sz perms w = Some (Inr (ZX_OK, Some tok, w'))"
    and mc: "minimum_contiguity e = 2 ^ k" and k: "k < 64"
  shows "length (pmt_mapped_addrs tok) = (unat sz + 2 ^ k - 1) div 2 ^ k"
proof (cases "unat sz + 2 ^ k - 1 < 2 ^ 64")
  case True
  with Create_OK(7) [OF c] mc k show ?thesis
    by (simp add: ROUNDUP_div_exact)
next
  case False
  with Create_OK(7) [OF c] mc k have "pmt_mapped_addrs tok = []"
    by (simp add: ROUNDUP_div_overflow)
  with Create_OK(8) [OF c] have "sz = 0" by auto
  with False show ?thesis
    using k power_strict_increasing [of k 64 "2::nat"] by simp
qed

text \<open>The loops, one iteration at a time, for running them on given values.\<close>

lemma fill_chunks_done: "fill_chunks mc addrs idx v 0 = Inr (addrs, idx)"
  by (subst fill_chunks.simps) simp

lemma fill_chunks_next:
  "m \<noteq> 0 \<Longrightarrow> idx < length addrs \<Longrightarrow>
     fill_chunks mc addrs idx v m
       = fill_chunks mc (addrs[idx := v]) (Suc idx) (v + min m mc) (m - min m mc)"
  by (subst fill_chunks.simps) (simp add: Let_def)

lemma fill_chunks_out:
  "m \<noteq> 0 \<Longrightarrow> \<not> idx < length addrs \<Longrightarrow> fill_chunks mc addrs idx v m = Inl OutOfBounds"
  by (subst fill_chunks.simps) (simp add: Let_def)

lemma stride_loop_done: "\<not> i < length addrs \<Longrightarrow> stride_loop mc i addrs = addrs"
  by (subst stride_loop.simps) simp

lemma stride_loop_next:
  "i < length addrs \<Longrightarrow>
     stride_loop mc i addrs = stride_loop mc (Suc i) (addrs[i := addrs ! (i - 1) + mc])"
  by (subst stride_loop.simps) simp

lemma replicate_numeral: "replicate (numeral k) x = x # replicate (pred_numeral k) x"
  by (simp add: numeral_eq_Suc)

lemmas run_defs =
  Create_def Create_pinned_def DEBUG_ASSERT_def IS_PAGE_ALIGNED_def PAGE_SIZE_def call_vmo_def
  check_contiguous_def is_pow2_def ROUNDUP_def Let_def PinnedMemoryTokenDispatcher_def
  Invalidate_eq AddPmoLocked_def RemovePmo_def Quarantine_def unpin_vmo_def
  MapIntoIommu_def kInvalidAddr_def UINT64_MAX_def iommu_Map_def iommu_Unmap_def
  UnmapFromIommuLocked_def destructor_def on_zero_handles_def
  fill_chunks_done fill_chunks_next fill_chunks_out stride_loop_done stride_loop_next
  unmap_walk_done unmap_walk_break unmap_walk_next replicate_numeral

lemma ex_contig_Create:
  "Create (Suc (Suc 0)) ex_contig_env ex_contig_vmo 0 0x4000 0 ex_world
     = Some (Inr (ZX_OK, Some ex_contig_pmt,
                  ex_world\<lparr>iommu_calls := [IommuMap 0 0x4000 0],
                            vmo_calls := [VmoCommitRange 0 0x4000, VmoPin 0 0x4000,
                                          VmoLookup 0 0x4000],
                            bti_pmo_list := [7]\<rparr>))"
  by (simp add: run_defs ex_contig_env_def ex_contig_vmo_def ex_contig_pmt_def ex_world_def)

lemma ex_Create:
  "Create (Suc (Suc (Suc 0))) ex_env ex_vmo 0 0x2000 0 ex_world
     = Some (Inr (ZX_OK, Some ex_pmt,
                  ex_world\<lparr>iommu_calls := [IommuMap 0 0x2000 0, IommuMap 0x1000 0x1000 0],
                            vmo_calls := [VmoCommitRange 0 0x2000, VmoPin 0 0x2000,
                                          VmoLookup 0 0x2000],
                            bti_pmo_list := [7]\<rparr>))"
  by (simp add: run_defs ex_env_def ex_vmo_def ex_pmt_def ex_world_def)

text \<open>
  C1 (amended). For every token that \<^verbatim>\<open>Create\<close> hands out, the address table has
  \<open>ceil (size / minimum_contiguity)\<close> entries, whether \<^verbatim>\<open>is_contiguous\<close> is true or
  false (the minimum contiguity being a power of two): \<^verbatim>\<open>Create\<close> sizes the table
  before it looks at the flag, and the contiguous branch of \<^verbatim>\<open>MapIntoIommu\<close> fills
  every entry, striding from the base. For a contiguous range of 4 pages with the
  minimum contiguity equal to the page size, the table has 4 entries, not 1.
\<close>

theorem created_table_length:
  assumes "Create fuel e vmo offset sz perms w = Some (Inr (ZX_OK, Some tok, w'))"
    and "minimum_contiguity e = 2 ^ k" and "k < 64"
  shows "length (pmt_mapped_addrs tok) = (unat sz + 2 ^ k - 1) div 2 ^ k"
  using assms by (rule Create_table_length)

theorem created_table_length_witness:
  "length (pmt_mapped_addrs ex_contig_pmt) = (unat (0x4000 :: u64) + 2 ^ 12 - 1) div 2 ^ 12
   \<and> length (pmt_mapped_addrs ex_pmt) = (unat (0x2000 :: u64) + 2 ^ 12 - 1) div 2 ^ 12"
  using created_table_length [OF ex_contig_Create, of 12] created_table_length [OF ex_Create, of 12]
  by (simp add: ex_contig_env_def ex_env_def)

text \<open>The claim as it was stated, one entry for a contiguous token, fails on this run of
  \<^verbatim>\<open>Create\<close>.\<close>

theorem contiguous_table_has_four_entries:
  "Create (Suc (Suc 0)) ex_contig_env ex_contig_vmo 0 0x4000 0 ex_world
     = Some (Inr (ZX_OK, Some ex_contig_pmt,
                  ex_world\<lparr>iommu_calls := [IommuMap 0 0x4000 0],
                            vmo_calls := [VmoCommitRange 0 0x4000, VmoPin 0 0x4000,
                                          VmoLookup 0 0x4000],
                            bti_pmo_list := [7]\<rparr>))
   \<and> pmt_is_contiguous ex_contig_pmt
   \<and> minimum_contiguity ex_contig_env = PAGE_SIZE
   \<and> pmt_size ex_contig_pmt = 4 * PAGE_SIZE
   \<and> pmt_mapped_addrs ex_contig_pmt = [0x10000, 0x11000, 0x12000, 0x13000]
   \<and> length (pmt_mapped_addrs ex_contig_pmt) \<noteq> 1"
  by (simp add: ex_contig_Create) (simp add: ex_contig_pmt_def ex_contig_env_def PAGE_SIZE_def)


lemma ex_destructor:
  "destructor ex_env ex_pmt
      (ex_world\<lparr>iommu_calls := [IommuMap 0 0x2000 0, IommuMap 0x1000 0x1000 0],
                vmo_calls := [VmoCommitRange 0 0x2000, VmoPin 0 0x2000, VmoLookup 0 0x2000],
                bti_pmo_list := [7]\<rparr>)
     = Inr (ex_world\<lparr>iommu_calls := [IommuMap 0 0x2000 0, IommuMap 0x1000 0x1000 0,
                                       IommuUnmap 0x10000 0x1000, IommuUnmap 0x20000 0x1000],
                      vmo_calls := [VmoCommitRange 0 0x2000, VmoPin 0 0x2000, VmoLookup 0 0x2000,
                                    VmoUnpin 0 0x2000],
                      bti_pmo_list := []\<rparr>)"
  by (simp add: run_defs ex_env_def ex_vmo_def ex_pmt_def ex_world_def)


subsection \<open>Address export\<close>

lemma expand_extent_next:
  "addr < limit \<Longrightarrow> next_idx < num_pages \<Longrightarrow>
     expand_extent limit num_pages addr next_idx buf
       = expand_extent limit num_pages (addr + PAGE_SIZE) (Suc next_idx) (buf[next_idx := addr])"
  by (subst expand_extent.simps) simp

lemma expand_extent_done:
  "\<not> (addr < limit \<and> next_idx < num_pages) \<Longrightarrow>
     expand_extent limit num_pages addr next_idx buf = (next_idx, buf)"
  by (subst expand_extent.simps) auto

lemma expand_loop_next:
  "i < length pmo_addrs \<Longrightarrow>
     expand_loop min_contig pmo_addrs num_pages i next_idx buf
       = (case expand_extent (pmo_addrs ! i + min_contig) num_pages (pmo_addrs ! i) next_idx buf of
            (next_idx', buf') \<Rightarrow> expand_loop min_contig pmo_addrs num_pages (Suc i) next_idx' buf')"
  by (subst expand_loop.simps) (simp add: Let_def)

lemma expand_loop_done:
  "\<not> i < length pmo_addrs \<Longrightarrow>
     expand_loop min_contig pmo_addrs num_pages i next_idx buf = (next_idx, buf)"
  by (subst expand_loop.simps) simp

text \<open>An entry that holds the sentinel is expanded into nothing: the bound
  \<^verbatim>\<open>extent_base + min_contig\<close> wraps around, and no address is below it.\<close>

lemma expand_extent_sentinel:
  "expand_extent (UINT64_MAX + mc) num_pages UINT64_MAX next_idx buf = (next_idx, buf)"
  by (rule expand_extent_done) (simp add: UINT64_MAX_def not_less)

lemma expand_loop_sentinel:
  "all_invalid pmo_addrs \<Longrightarrow>
     expand_loop mc pmo_addrs num_pages i next_idx buf = (next_idx, buf)"
proof (induction "length pmo_addrs - i" arbitrary: i)
  case 0
  then show ?case by (simp add: expand_loop_done)
next
  case (Suc n)
  then have i: "i < length pmo_addrs" and n: "n = length pmo_addrs - Suc i" by simp_all
  from Suc.prems i have "pmo_addrs ! i = UINT64_MAX"
    by (simp add: all_invalid_def list_all_length)
  with i Suc.hyps(1) [OF n Suc.prems] show ?case
    by (simp add: expand_loop_next expand_extent_sentinel)
qed

text \<open>
  C9 (amended). Address export makes no check that the token is mapped. Called with a
  buffer of the right size after the address table has been invalidated (every entry
  the sentinel), \<^verbatim>\<open>EncodeAddrs\<close> returns \<^verbatim>\<open>ZX_OK\<close>. In the compressed mode it
  fills the buffer with the sentinel. In the expanded mode it writes nothing: the
  buffer is returned as the caller passed it, because for an entry \<^verbatim>\<open>UINT64_MAX\<close>
  the bound \<^verbatim>\<open>extent_base + min_contig\<close> wraps around and the inner loop never runs.
\<close>

theorem export_of_invalidated_table:
  "all_invalid (pmt_mapped_addrs tok) \<longrightarrow>
     (length buf = length (pmt_mapped_addrs tok) \<longrightarrow>
        EncodeAddrs e tok True buf = (ZX_OK, replicate (length buf) UINT64_MAX))
     \<and> (length buf2 = unat (pmt_size tok div PAGE_SIZE) \<longrightarrow>
        EncodeAddrs e tok False buf2 = (ZX_OK, buf2))"
proof -
  have "pmt_mapped_addrs tok = replicate (length (pmt_mapped_addrs tok)) UINT64_MAX"
    if "all_invalid (pmt_mapped_addrs tok)"
    using that by (simp add: all_invalid_def list_all_iff replicate_length_same)
  then show ?thesis
    by (auto simp: EncodeAddrs_def Let_def memcpy_def expand_loop_sentinel)
qed

theorem export_of_invalidated_table_witness:
  "all_invalid (pmt_mapped_addrs (ex_pmt\<lparr>pmt_mapped_addrs := [UINT64_MAX, UINT64_MAX]\<rparr>))
   \<and> EncodeAddrs ex_env (ex_pmt\<lparr>pmt_mapped_addrs := [UINT64_MAX, UINT64_MAX]\<rparr>) True [0, 0]
       = (ZX_OK, [UINT64_MAX, UINT64_MAX])
   \<and> EncodeAddrs ex_env (ex_pmt\<lparr>pmt_mapped_addrs := [UINT64_MAX, UINT64_MAX]\<rparr>) False [0, 0]
       = (ZX_OK, [0, 0])"
  using export_of_invalidated_table
    [of "ex_pmt\<lparr>pmt_mapped_addrs := [UINT64_MAX, UINT64_MAX]\<rparr>" "[0, 0]" ex_env "[0, 0]"]
  by (simp add: all_invalid_def ex_pmt_def PAGE_SIZE_def)

text \<open>The claim as it was stated, a buffer filled with values derived from the sentinel,
  fails in the expanded mode: whatever the buffer held comes back.\<close>

theorem expanded_export_of_invalidated_table_writes_nothing:
  "EncodeAddrs ex_env (ex_pmt\<lparr>pmt_mapped_addrs := [UINT64_MAX, UINT64_MAX]\<rparr>) False [0, 0]
     = (ZX_OK, [0, 0])
   \<and> EncodeAddrs ex_env (ex_pmt\<lparr>pmt_mapped_addrs := [UINT64_MAX, UINT64_MAX]\<rparr>) False [1, 2]
     = (ZX_OK, [1, 2])"
  by (simp add: EncodeAddrs_def ex_pmt_def ex_env_def PAGE_SIZE_def UINT64_MAX_def Let_def
        expand_loop_next expand_loop_done expand_extent_next expand_extent_done)

subsection \<open>The expanded export\<close>

lemma unat_add_of_nat:
  fixes a :: u64
  assumes "unat a + n < 2 ^ 64"
  shows "unat (a + of_nat n) = unat a + n"
proof -
  have n: "unat (of_nat n :: u64) = n"
    using assms by (simp add: unat_of_nat)
  have "unat a + unat (of_nat n :: u64) < 2 ^ LENGTH(64)"
    using assms n by simp
  then have "unat (a + of_nat n) = unat a + unat (of_nat n :: u64)"
    by (simp only: unat_add_lem)
  with n show ?thesis by simp
qed

lemma pages_per_chunk:
  assumes "12 \<le> k"
  shows "(2::nat) ^ (k - 12) * 4096 = 2 ^ k"
proof -
  have "(2::nat) ^ (k - 12) * 2 ^ 12 = 2 ^ (k - 12 + 12)" by (simp only: power_add)
  with assms show ?thesis by simp
qed

text \<open>One run of the inner loop, entered at page \<open>m\<close> of the chunk at \<open>a\<close>: it writes the
  pages up to the end of the chunk, or up to the page count.\<close>

lemma expand_extent_run:
  fixes a :: u64
  assumes k: "12 \<le> k" "k < 64" and nowrap: "unat a + 2 ^ k < 2 ^ 64"
  shows "m \<le> 2 ^ (k - 12) \<Longrightarrow>
    \<exists>buf'. expand_extent (a + 2 ^ k) N (a + of_nat (m * 4096)) idx buf
              = (idx + min (2 ^ (k - 12) - m) (N - idx), buf')
         \<and> length buf' = length buf
         \<and> (\<forall>j<length buf. buf' ! j =
               (if idx \<le> j \<and> j < idx + min (2 ^ (k - 12) - m) (N - idx)
                then a + of_nat ((m + (j - idx)) * 4096) else buf ! j))"
proof (induction "2 ^ (k - 12) - m" arbitrary: m idx buf)
  case 0
  then have m: "m = 2 ^ (k - 12)" by simp
  have "a + of_nat (m * 4096) = a + 2 ^ k"
    unfolding m pages_per_chunk [OF k(1)] by simp
  then show ?case
    using m by (auto simp: expand_extent_done)
next
  case (Suc n)
  define P :: nat where "P = 2 ^ (k - 12)"
  from Suc.hyps(2) have mP: "m < P" and n: "n = P - Suc m" by (simp_all add: P_def)
  have PK: "P * 4096 = 2 ^ k" unfolding P_def by (rule pages_per_chunk [OF k(1)])
  have lim: "unat (a + 2 ^ k) = unat a + 2 ^ k"
    using unat_add_of_nat [of a "2 ^ k"] nowrap by simp
  have "m * 4096 < P * 4096" using mP by simp
  then have lt: "m * 4096 < 2 ^ k" using PK by simp
  then have cur: "unat (a + of_nat (m * 4096)) = unat a + m * 4096"
    using nowrap by (intro unat_add_of_nat) simp
  have below: "a + of_nat (m * 4096) < a + 2 ^ k"
    using lim cur lt by (simp add: word_less_nat_alt)
  have nxt: "a + of_nat (m * 4096) + PAGE_SIZE = a + of_nat (Suc m * 4096)"
    by (simp add: PAGE_SIZE_def)
  show ?case
  proof (cases "idx < N")
    case False
    then show ?thesis
      by (auto simp: expand_extent_done simp flip: P_def)
  next
    case True
    from Suc.hyps(1) [of "Suc m" "Suc idx" "buf[idx := a + of_nat (m * 4096)]"] n mP
    obtain buf' where r: "expand_extent (a + 2 ^ k) N (a + of_nat (Suc m * 4096)) (Suc idx)
                            (buf[idx := a + of_nat (m * 4096)])
                          = (Suc idx + min (P - Suc m) (N - Suc idx), buf')"
      and l: "length buf' = length buf"
      and c: "\<forall>j<length buf. buf' ! j =
               (if Suc idx \<le> j \<and> j < Suc idx + min (P - Suc m) (N - Suc idx)
                then a + of_nat ((Suc m + (j - Suc idx)) * 4096)
                else (buf[idx := a + of_nat (m * 4096)]) ! j)"
      by (auto simp: P_def)
    have cnt: "Suc idx + min (P - Suc m) (N - Suc idx) = idx + min (P - m) (N - idx)"
      using mP True by linarith
    have "expand_extent (a + 2 ^ k) N (a + of_nat (m * 4096)) idx buf
            = expand_extent (a + 2 ^ k) N (a + of_nat (m * 4096) + PAGE_SIZE) (Suc idx)
                (buf[idx := a + of_nat (m * 4096)])"
      using below True by (rule expand_extent_next)
    also have "\<dots> = (Suc idx + min (P - Suc m) (N - Suc idx), buf')"
      unfolding nxt by (rule r)
    finally have "expand_extent (a + 2 ^ k) N (a + of_nat (m * 4096)) idx buf
            = (idx + min (P - m) (N - idx), buf')"
      unfolding cnt .
    moreover have "\<forall>j<length buf. buf' ! j =
               (if idx \<le> j \<and> j < idx + min (P - m) (N - idx)
                then a + of_nat ((m + (j - idx)) * 4096) else buf ! j)"
    proof (intro allI impI)
      fix j assume j: "j < length buf"
      show "buf' ! j = (if idx \<le> j \<and> j < idx + min (P - m) (N - idx)
                then a + of_nat ((m + (j - idx)) * 4096) else buf ! j)"
      proof (cases "j = idx")
        case True
        with c j mP \<open>idx < N\<close> show ?thesis by (simp add: min_def)
      next
        case False
        then have "Suc m + (j - Suc idx) = m + (j - idx)" if "Suc idx \<le> j"
          using that by simp
        with c j False cnt show ?thesis
          by (auto simp: Suc_le_eq)
      qed
    qed
    ultimately show ?thesis using l by (auto simp: P_def)
  qed
qed

lemma chunk_index:
  fixes P :: nat
  assumes "i * P \<le> j" "j < i * P + P"
  shows "j div P = i" and "j mod P = j - i * P"
proof -
  from assms obtain r where r: "j = i * P + r" "r < P"
    by (metis add_less_cancel_left le_Suc_ex)
  then show "j div P = i" by simp
  from r show "j mod P = j - i * P" by simp
qed

text \<open>The outer loop from entry \<open>i\<close> on, when the entries before it have filled the buffer
  up to \<open>min (i * P) N\<close>, \<open>P\<close> the number of pages in a chunk.\<close>

lemma expand_loop_run:
  assumes k: "12 \<le> k" "k < 64"
    and nowrap: "\<forall>a\<in>set addrs. unat a + 2 ^ k < 2 ^ 64"
  shows "i \<le> length addrs \<Longrightarrow> idx = min (i * 2 ^ (k - 12)) N \<Longrightarrow>
    \<exists>buf'. expand_loop (2 ^ k) addrs N i idx buf = (min (length addrs * 2 ^ (k - 12)) N, buf')
         \<and> length buf' = length buf
         \<and> (\<forall>j<length buf. buf' ! j =
               (if idx \<le> j \<and> j < min (length addrs * 2 ^ (k - 12)) N
                then addrs ! (j div 2 ^ (k - 12)) + of_nat ((j mod 2 ^ (k - 12)) * 4096)
                else buf ! j))"
proof (induction "length addrs - i" arbitrary: i idx buf)
  case 0
  then show ?case by (auto simp: expand_loop_done)
next
  case (Suc n)
  define P :: nat where "P = 2 ^ (k - 12)"
  define L where "L = length addrs"
  have P: "0 < P" by (simp add: P_def)
  from Suc.hyps(2) have i: "i < L" and n: "n = L - Suc i" by (simp_all add: L_def)
  have idx: "idx = min (i * P) N" using Suc.prems(2) by (simp add: P_def)
  from i nowrap have nw: "unat (addrs ! i) + 2 ^ k < 2 ^ 64" by (simp add: L_def)
  define idx1 where "idx1 = idx + min P (N - idx)"
  from expand_extent_run [OF k nw, of 0 N idx buf]
  obtain buf1 where e: "expand_extent (addrs ! i + 2 ^ k) N (addrs ! i) idx buf = (idx1, buf1)"
    and l1: "length buf1 = length buf"
    and c1: "\<forall>j<length buf. buf1 ! j =
               (if idx \<le> j \<and> j < idx1 then addrs ! i + of_nat ((j - idx) * 4096)
                else buf ! j)"
    by (auto simp: P_def idx1_def)
  have idx1: "idx1 = min (Suc i * P) N"
  proof -
    have "Suc i * P = i * P + P" by simp
    then show ?thesis unfolding idx1_def idx by linarith
  qed
  have le: "idx1 \<le> min (L * P) N"
  proof -
    have "Suc i * P \<le> L * P" using i by (intro mult_le_mono1) simp
    then show ?thesis unfolding idx1 by (simp add: min_def)
  qed
  from Suc.hyps(1) [of "Suc i" idx1 buf1] n i idx1
  obtain buf' where r: "expand_loop (2 ^ k) addrs N (Suc i) idx1 buf1 = (min (L * P) N, buf')"
    and l: "length buf' = length buf1"
    and c: "\<forall>j<length buf1. buf' ! j =
               (if idx1 \<le> j \<and> j < min (L * P) N
                then addrs ! (j div P) + of_nat ((j mod P) * 4096)
                else buf1 ! j)"
    by (auto simp: P_def L_def)
  have "expand_loop (2 ^ k) addrs N i idx buf = (min (L * P) N, buf')"
    using i e r by (simp add: expand_loop_next L_def)
  moreover have "\<forall>j<length buf. buf' ! j =
               (if idx \<le> j \<and> j < min (L * P) N
                then addrs ! (j div P) + of_nat ((j mod P) * 4096)
                else buf ! j)"
  proof (intro allI impI)
    fix j assume j: "j < length buf"
    consider "j < idx" | "idx \<le> j" "j < idx1" | "idx1 \<le> j" by linarith
    then show "buf' ! j = (if idx \<le> j \<and> j < min (L * P) N
                then addrs ! (j div P) + of_nat ((j mod P) * 4096) else buf ! j)"
    proof cases
      case 1
      moreover have "idx \<le> idx1" by (simp add: idx1_def)
      ultimately show ?thesis using c c1 j l1 by simp
    next
      case 2
      then have "idx < N" unfolding idx1_def by (simp add: min_def split: if_splits)
      then have ip: "idx = i * P" using idx by (simp add: min_def split: if_splits)
      have "j < i * P + P" using 2(2) unfolding idx1_def ip by simp
      with 2(1) ip have "j div P = i" "j mod P = j - idx"
        using chunk_index [of i P j] by simp_all
      with 2 le c c1 j l1 show ?thesis by simp
    next
      case 3
      moreover have "idx \<le> idx1" by (simp add: idx1_def)
      ultimately show ?thesis using c c1 j l1 le by auto
    qed
  qed
  ultimately show ?case using l l1 by (auto simp: P_def L_def)
qed

lemma ceil_chunks_cover:
  fixes s K :: nat
  assumes "0 < K"
  shows "s \<le> (s + K - 1) div K * K"
proof -
  have "s + K - 1 = (s + K - 1) div K * K + (s + K - 1) mod K" by simp
  moreover have "(s + K - 1) mod K < K" using assms by simp
  ultimately show ?thesis by linarith
qed

lemma expanded_export_eq:
  assumes mc: "minimum_contiguity e = 2 ^ k" and k: "12 \<le> k" "k < 64"
    and nowrap: "\<forall>a\<in>set (pmt_mapped_addrs tok). unat a + 2 ^ k < 2 ^ 64"
    and len: "length (pmt_mapped_addrs tok) = (unat (pmt_size tok) + 2 ^ k - 1) div 2 ^ k"
    and buf: "length buf = unat (pmt_size tok div PAGE_SIZE)"
  shows "EncodeAddrs e tok False buf
           = (ZX_OK, map (\<lambda>j. pmt_mapped_addrs tok ! (j div 2 ^ (k - 12))
                              + of_nat (j mod 2 ^ (k - 12)) * PAGE_SIZE)
                       [0..<unat (pmt_size tok div PAGE_SIZE)])"
proof -
  define P :: nat where "P = 2 ^ (k - 12)"
  define N where "N = unat (pmt_size tok div PAGE_SIZE)"
  define L where "L = length (pmt_mapped_addrs tok)"
  have PK: "P * 4096 = 2 ^ k" unfolding P_def by (rule pages_per_chunk [OF k(1)])
  have N: "N = unat (pmt_size tok) div 4096"
    by (simp add: N_def PAGE_SIZE_def unat_div)
  have "unat (pmt_size tok) \<le> L * 2 ^ k"
    unfolding L_def len by (rule ceil_chunks_cover) simp
  then have "unat (pmt_size tok) \<le> L * P * 4096" using PK by (simp add: mult.assoc)
  then have "unat (pmt_size tok) div 4096 \<le> L * P * 4096 div 4096" by (rule div_le_mono)
  then have cover: "N \<le> L * P" using N by simp
  from expand_loop_run [OF k nowrap, of 0 0 N buf]
  obtain buf' where r: "expand_loop (2 ^ k) (pmt_mapped_addrs tok) N 0 0 buf = (min (L * P) N, buf')"
    and l: "length buf' = length buf"
    and c: "\<forall>j<length buf. buf' ! j =
               (if j < min (L * P) N
                then pmt_mapped_addrs tok ! (j div P) + of_nat ((j mod P) * 4096)
                else buf ! j)"
    by (auto simp: P_def L_def)
  have "buf' = map (\<lambda>j. pmt_mapped_addrs tok ! (j div P) + of_nat (j mod P) * PAGE_SIZE) [0..<N]"
  proof (rule nth_equalityI)
    show "length buf' = length (map (\<lambda>j. pmt_mapped_addrs tok ! (j div P)
                                        + of_nat (j mod P) * PAGE_SIZE) [0..<N])"
      using l buf by (simp add: N_def)
  next
    fix j assume "j < length buf'"
    with l buf have j: "j < N" "j < length buf" by (simp_all add: N_def)
    with c cover show "buf' ! j = map (\<lambda>j. pmt_mapped_addrs tok ! (j div P)
                                        + of_nat (j mod P) * PAGE_SIZE) [0..<N] ! j"
      by (simp add: PAGE_SIZE_def)
  qed
  with r buf mc show ?thesis
    by (simp add: EncodeAddrs_def Let_def N_def P_def)
qed

text \<open>
  C8 (amended). Let the minimum contiguity be a power of two that is at least the page
  size, let the table have \<open>ceil (size / minimum_contiguity)\<close> entries, and let no chunk
  reach the top of the 64-bit address space: for every entry \<open>a\<close>,
  \<open>a + minimum_contiguity\<close> does not wrap around. Then the expanded export
  (\<^verbatim>\<open>compress_results = false\<close>) with a buffer of exactly \<open>size / PAGE_SIZE\<close>
  elements returns \<^verbatim>\<open>ZX_OK\<close> and writes every element of the buffer: element \<open>j\<close>
  is the entry of the chunk that page \<open>j\<close> lies in, plus \<^verbatim>\<open>PAGE_SIZE\<close> for every
  page before it in that chunk. So the chunk starts are the table's entries in order,
  inside a chunk each address is \<^verbatim>\<open>PAGE_SIZE\<close> above the one before, and the last
  chunk stops at the page count.
\<close>

theorem expanded_export:
  assumes "minimum_contiguity e = 2 ^ k" and "12 \<le> k" and "k < 64"
    and "\<forall>a\<in>set (pmt_mapped_addrs tok). unat a + 2 ^ k < 2 ^ 64"
    and "length (pmt_mapped_addrs tok) = (unat (pmt_size tok) + 2 ^ k - 1) div 2 ^ k"
    and "length buf = unat (pmt_size tok div PAGE_SIZE)"
  shows "EncodeAddrs e tok False buf
           = (ZX_OK, map (\<lambda>j. pmt_mapped_addrs tok ! (j div 2 ^ (k - 12))
                              + of_nat (j mod 2 ^ (k - 12)) * PAGE_SIZE)
                       [0..<unat (pmt_size tok div PAGE_SIZE)])"
  using assms by (rule expanded_export_eq)

theorem expanded_export_witness:
  "EncodeAddrs (ex_env\<lparr>minimum_contiguity := 0x4000\<rparr>)
     (ex_pmt\<lparr>pmt_size := 0x6000, pmt_mapped_addrs := [0x100000, 0x200000]\<rparr>) False
     [0, 0, 0, 0, 0, 0]
   = (ZX_OK, [0x100000, 0x101000, 0x102000, 0x103000, 0x200000, 0x201000])"
  using expanded_export [of "ex_env\<lparr>minimum_contiguity := 0x4000\<rparr>" 14
      "ex_pmt\<lparr>pmt_size := 0x6000, pmt_mapped_addrs := [0x100000, 0x200000]\<rparr>"
      "[0, 0, 0, 0, 0, 0]"]
  by (simp add: ex_env_def ex_pmt_def PAGE_SIZE_def upt_rec [of 0] upt_rec [of "Suc _"] )

text \<open>The claim as it was stated, for every mapped token, fails for a token whose one page
  is mapped at the last page of the address space: the bound
  \<^verbatim>\<open>extent_base + min_contig\<close> wraps to 0, the export returns \<^verbatim>\<open>ZX_OK\<close> and
  the buffer comes back as it went in.\<close>

lemma ex_top_Create:
  "Create (Suc (Suc 0))
     (ex_contig_env\<lparr>Map_result := (\<lambda>n. (ZX_OK, 0xFFFFFFFFFFFFF000, 0x1000))\<rparr>)
     (ex_contig_vmo\<lparr>Lookup_pages := [0x1000]\<rparr>) 0 0x1000 0 ex_world
   = Some (Inr (ZX_OK,
                Some (ex_contig_pmt\<lparr>pmt_vmo := ex_contig_vmo\<lparr>Lookup_pages := [0x1000]\<rparr>,
                                     pmt_size := 0x1000,
                                     pmt_mapped_addrs := [0xFFFFFFFFFFFFF000]\<rparr>),
                ex_world\<lparr>iommu_calls := [IommuMap 0 0x1000 0],
                          vmo_calls := [VmoCommitRange 0 0x1000, VmoPin 0 0x1000,
                                        VmoLookup 0 0x1000],
                          bti_pmo_list := [7]\<rparr>))"
  by (simp add: run_defs ex_contig_env_def ex_contig_vmo_def ex_contig_pmt_def ex_world_def)

theorem expanded_export_at_top_of_address_space:
  "Create (Suc (Suc 0))
     (ex_contig_env\<lparr>Map_result := (\<lambda>n. (ZX_OK, 0xFFFFFFFFFFFFF000, 0x1000))\<rparr>)
     (ex_contig_vmo\<lparr>Lookup_pages := [0x1000]\<rparr>) 0 0x1000 0 ex_world
   = Some (Inr (ZX_OK,
                Some (ex_contig_pmt\<lparr>pmt_vmo := ex_contig_vmo\<lparr>Lookup_pages := [0x1000]\<rparr>,
                                     pmt_size := 0x1000,
                                     pmt_mapped_addrs := [0xFFFFFFFFFFFFF000]\<rparr>),
                ex_world\<lparr>iommu_calls := [IommuMap 0 0x1000 0],
                          vmo_calls := [VmoCommitRange 0 0x1000, VmoPin 0 0x1000,
                                        VmoLookup 0 0x1000],
                          bti_pmo_list := [7]\<rparr>))
   \<and> EncodeAddrs (ex_contig_env\<lparr>Map_result := (\<lambda>n. (ZX_OK, 0xFFFFFFFFFFFFF000, 0x1000))\<rparr>)
        (ex_contig_pmt\<lparr>pmt_vmo := ex_contig_vmo\<lparr>Lookup_pages := [0x1000]\<rparr>,
                        pmt_size := 0x1000, pmt_mapped_addrs := [0xFFFFFFFFFFFFF000]\<rparr>)
        False [0]
      = (ZX_OK, [0])
   \<and> EncodeAddrs (ex_contig_env\<lparr>Map_result := (\<lambda>n. (ZX_OK, 0xFFFFFFFFFFFFF000, 0x1000))\<rparr>)
        (ex_contig_pmt\<lparr>pmt_vmo := ex_contig_vmo\<lparr>Lookup_pages := [0x1000]\<rparr>,
                        pmt_size := 0x1000, pmt_mapped_addrs := [0xFFFFFFFFFFFFF000]\<rparr>)
        False [5]
      = (ZX_OK, [5])"
  by (simp add: ex_top_Create)
     (simp add: EncodeAddrs_def ex_contig_pmt_def ex_contig_env_def PAGE_SIZE_def Let_def
        expand_loop_next expand_loop_done expand_extent_next expand_extent_done)

subsection \<open>The scatter-gather unmap walk\<close>

lemma upt_shift: "map f [0..<Suc n] = f 0 # map (\<lambda>j. f (Suc j)) [0..<n]"
proof -
  have "[0..<Suc n] = 0 # map Suc [0..<n]"
    by (simp add: upt_conv_Cons map_Suc_upt del: upt_Suc)
  then show ?thesis by (simp add: o_def del: upt_Suc)
qed

lemma unat_min: "unat (min (a::u64) b) = min (unat a) (unat b)"
  by (simp add: min_def word_le_nat_alt)

lemma unat_sub_min_eq: "unat (r - min r (mc::u64)) = unat r - unat mc"
proof -
  have "min r mc \<le> r" by simp
  then have "unat (r - min r mc) = unat r - unat (min r mc)" by (rule unat_sub)
  then show ?thesis by (simp add: unat_min)
qed

text \<open>The walk over a table without a sentinel, as long as no assertion fires (they are
  compiled out, or every unmap call succeeds and only the last length is short): every
  entry is unmapped, at the length \<open>min remaining min_contig\<close> of its turn, and the status
  is the first error.\<close>

lemma unmap_walk_asserts_pass:
  assumes valid: "\<forall>j<length addrs. addrs ! j \<noteq> UINT64_MAX"
  shows "i \<le> length addrs \<Longrightarrow>
     (debug_asserts e \<Longrightarrow>
        \<forall>j<length addrs - i.
           Unmap_result e (length (iommu_calls w) + j) = ZX_OK
           \<and> (min (unat remaining - j * unat (minimum_contiguity e))
                   (unat (minimum_contiguity e)) = unat (minimum_contiguity e)
              \<or> i + j = length addrs - 1)) \<Longrightarrow>
     unmap_walk e addrs i remaining status w
       = Inr (first_error (status # map (\<lambda>j. Unmap_result e (length (iommu_calls w) + j))
                                      [0..<length addrs - i]),
              w\<lparr>iommu_calls := iommu_calls w @
                   map (\<lambda>j. IommuUnmap (addrs ! (i + j))
                              (of_nat (min (unat remaining - j * unat (minimum_contiguity e))
                                           (unat (minimum_contiguity e)))))
                       [0..<length addrs - i]\<rparr>)"
proof (induction "length addrs - i" arbitrary: i remaining status w)
  case 0
  then show ?case by (simp add: unmap_walk_done)
next
  case (Suc n)
  define mc where "mc = minimum_contiguity e"
  from Suc.hyps(2) have i: "i < length addrs" and n: "n = length addrs - Suc i"
    and len: "length addrs - i = Suc n" by simp_all
  define err where "err = Unmap_result e (length (iommu_calls w))"
  define w1 where "w1 = w\<lparr>iommu_calls := iommu_calls w @ [IommuUnmap (addrs ! i) (min remaining mc)]\<rparr>"
  define status1 where "status1 = (if err \<noteq> ZX_OK \<and> status = ZX_OK then err else status)"
  have szs: "unat (remaining - min remaining mc) - j * unat mc
               = unat remaining - Suc j * unat mc" for j
    by (simp add: unat_sub_min_eq)
  have quiet0: "err = ZX_OK \<and> (min remaining mc = mc \<or> i = length addrs - 1)"
    if dbg: "debug_asserts e"
  proof -
    from Suc.prems(2) [OF dbg] len
    have "Unmap_result e (length (iommu_calls w) + 0) = ZX_OK
           \<and> (min (unat remaining - 0 * unat mc) (unat mc) = unat mc
              \<or> i + 0 = length addrs - 1)"
      unfolding mc_def by (metis zero_less_Suc)
    then have "err = ZX_OK" and "unat (min remaining mc) = unat mc \<or> i = length addrs - 1"
      by (simp_all add: err_def unat_min)
    then show ?thesis by (simp only: word_unat_eq_iff)
  qed
  have quiet1: "\<forall>j<length addrs - Suc i.
           Unmap_result e (length (iommu_calls w1) + j) = ZX_OK
           \<and> (min (unat (remaining - min remaining mc) - j * unat (minimum_contiguity e))
                   (unat (minimum_contiguity e)) = unat (minimum_contiguity e)
              \<or> Suc i + j = length addrs - 1)"
    if dbg: "debug_asserts e"
  proof (intro allI impI)
    fix j assume j: "j < length addrs - Suc i"
    then have "Suc j < length addrs - i" by simp
    with Suc.prems(2) [OF dbg]
    have "Unmap_result e (length (iommu_calls w) + Suc j) = ZX_OK
           \<and> (min (unat remaining - Suc j * unat mc) (unat mc) = unat mc
              \<or> i + Suc j = length addrs - 1)"
      unfolding mc_def by blast
    then show "Unmap_result e (length (iommu_calls w1) + j) = ZX_OK
           \<and> (min (unat (remaining - min remaining mc) - j * unat (minimum_contiguity e))
                   (unat (minimum_contiguity e)) = unat (minimum_contiguity e)
              \<or> Suc i + j = length addrs - 1)"
      unfolding szs mc_def [symmetric] by (simp add: w1_def)
  qed
  have step: "unmap_walk e addrs i remaining status w
                = unmap_walk e addrs (Suc i) (remaining - min remaining mc) status1 w1"
  proof (cases "debug_asserts e")
    case True
    from quiet0 [OF True] show ?thesis
      using i valid
      by (auto simp add: unmap_walk_next DEBUG_ASSERT_def Let_def mc_def err_def w1_def
            status1_def)
  next
    case False
    then show ?thesis
      using i valid
      by (simp add: unmap_walk_next DEBUG_ASSERT_def Let_def mc_def err_def w1_def status1_def)
  qed
  have ih: "unmap_walk e addrs (Suc i) (remaining - min remaining mc) status1 w1
       = Inr (first_error (status1 # map (\<lambda>j. Unmap_result e (length (iommu_calls w1) + j))
                                      [0..<n]),
              w1\<lparr>iommu_calls := iommu_calls w1 @
                   map (\<lambda>j. IommuUnmap (addrs ! (Suc i + j))
                              (of_nat (min (unat (remaining - min remaining mc) - j * unat mc)
                                           (unat mc))))
                       [0..<n]\<rparr>)"
    using Suc.hyps(1) [where i = "Suc i" and remaining = "remaining - min remaining mc"
                         and status = status1 and w = w1, OF n] i quiet1
    by (simp add: mc_def n)
  have st: "first_error (status1 # map (\<lambda>j. Unmap_result e (length (iommu_calls w1) + j)) [0..<n])
          = first_error (status # map (\<lambda>j. Unmap_result e (length (iommu_calls w) + j))
                                       [0..<Suc n])"
    unfolding upt_shift by (simp add: status1_def err_def w1_def)
  have sz0: "(of_nat (min (unat remaining - 0 * unat mc) (unat mc)) :: u64) = min remaining mc"
    by (simp flip: unat_min)
  have calls: "iommu_calls w1 @
                   map (\<lambda>j. IommuUnmap (addrs ! (Suc i + j))
                              (of_nat (min (unat (remaining - min remaining mc) - j * unat mc)
                                           (unat mc))))
                       [0..<n]
             = iommu_calls w @
                   map (\<lambda>j. IommuUnmap (addrs ! (i + j))
                              (of_nat (min (unat remaining - j * unat mc) (unat mc))))
                       [0..<Suc n]"
    unfolding upt_shift szs using sz0 by (simp add: w1_def)
  show ?case
    unfolding step ih st len calls mc_def [symmetric]
    by (simp add: w1_def)
qed

text \<open>With debug assertions compiled in, an unmap call that fails, whichever it is, ends
  the walk in an assertion.\<close>

lemma unmap_walk_assert_fires:
  assumes dbg: "debug_asserts e" and valid: "\<forall>j<length addrs. addrs ! j \<noteq> UINT64_MAX"
  shows "i \<le> length addrs \<Longrightarrow>
     \<exists>j<length addrs - i. Unmap_result e (length (iommu_calls w) + j) \<noteq> ZX_OK \<Longrightarrow>
     unmap_walk e addrs i remaining status w = Inl DebugAssertFailed"
proof (induction "length addrs - i" arbitrary: i remaining status w)
  case 0
  then show ?case by simp
next
  case (Suc n)
  define mc where "mc = minimum_contiguity e"
  from Suc.hyps(2) have i: "i < length addrs" and n: "n = length addrs - Suc i"
    and len: "length addrs - i = Suc n" by simp_all
  define err where "err = Unmap_result e (length (iommu_calls w))"
  define w1 where "w1 = w\<lparr>iommu_calls := iommu_calls w @ [IommuUnmap (addrs ! i) (min remaining mc)]\<rparr>"
  define status1 where "status1 = (if err \<noteq> ZX_OK \<and> status = ZX_OK then err else status)"
  show ?case
  proof (cases "(min remaining mc = mc \<or> i = length addrs - 1) \<and> err = ZX_OK")
    case False
    then show ?thesis
      using i valid dbg
      by (auto simp add: unmap_walk_next DEBUG_ASSERT_def Let_def mc_def err_def)
  next
    case True
    then have step: "unmap_walk e addrs i remaining status w
                = unmap_walk e addrs (Suc i) (remaining - min remaining mc) status1 w1"
      using i valid
      by (auto simp add: unmap_walk_next DEBUG_ASSERT_def Let_def mc_def err_def w1_def
            status1_def)
    from Suc.prems(2) obtain j where j: "j < length addrs - i"
        "Unmap_result e (length (iommu_calls w) + j) \<noteq> ZX_OK" by blast
    have "j \<noteq> 0"
    proof
      assume "j = 0"
      with j(2) True show False by (simp add: err_def)
    qed
    then obtain j' where j': "j = Suc j'" by (cases j) auto
    with j have "j' < length addrs - Suc i"
        "Unmap_result e (length (iommu_calls w1) + j') \<noteq> ZX_OK"
      by (simp_all add: w1_def)
    then have "\<exists>j<length addrs - Suc i. Unmap_result e (length (iommu_calls w1) + j) \<noteq> ZX_OK"
      by blast
    from Suc.hyps(1) [where i = "Suc i" and remaining = "remaining - min remaining mc"
                        and status = status1 and w = w1, OF n _ this] i
    show ?thesis unfolding step by simp
  qed
qed

lemma ceil_chunks_below:
  fixes s K :: nat
  assumes "0 < K" "0 < (s + K - 1) div K"
  shows "((s + K - 1) div K - 1) * K < s"
proof -
  define L where "L = (s + K - 1) div K"
  have "L * K \<le> s + K - 1" unfolding L_def by simp
  moreover have "L * K = (L - 1) * K + K" using assms(2) by (simp add: L_def algebra_simps)
  moreover have "0 < s"
  proof (rule ccontr)
    assume "\<not> 0 < s"
    then have "(s + K - 1) div K = 0" using assms(1) by simp
    with assms(2) show False by simp
  qed
  ultimately show ?thesis unfolding L_def using assms(1) by linarith
qed

lemma walk_sizes:
  fixes sz mc :: u64
  assumes mc: "mc \<noteq> 0" and L: "L = (unat sz + unat mc - 1) div unat mc" and j: "j < L"
  shows "(of_nat (min (unat sz - j * unat mc) (unat mc)) :: u64)
           = (if Suc j < L then mc else sz - of_nat j * mc)"
    and "sz - of_nat (L - 1) * mc \<le> mc"
    and "min (unat sz - j * unat mc) (unat mc) = unat mc \<or> j = L - 1"
proof -
  define K where "K = unat mc"
  define s where "s = unat sz"
  have K: "0 < K" using mc by (simp add: K_def unat_gt_0)
  have Lpos: "0 < (s + K - 1) div K" using j L by (simp add: K_def s_def)
  have below: "(L - 1) * K < s"
    using ceil_chunks_below [OF K Lpos] L by (simp add: K_def s_def)
  have cover: "s \<le> L * K"
    using ceil_chunks_cover [OF K, of s] L by (simp add: K_def s_def)
  have last: "s - (L - 1) * K \<le> K"
  proof -
    have "L * K = (L - 1) * K + K" using j by (simp add: algebra_simps)
    with cover show ?thesis by linarith
  qed
  have full: "K \<le> s - j * K" if "Suc j < L"
  proof -
    from that have "Suc j * K \<le> (L - 1) * K" by (intro mult_le_mono1) simp
    with below show ?thesis by simp
  qed
  have sub: "(of_nat (s - i * K) :: u64) = sz - of_nat i * mc" if "i * K \<le> s" for i
    using that by (simp add: of_nat_diff s_def K_def)
  show "(of_nat (min (unat sz - j * unat mc) (unat mc)) :: u64)
           = (if Suc j < L then mc else sz - of_nat j * mc)"
  proof (cases "Suc j < L")
    case True
    with full show ?thesis by (simp add: K_def s_def min_def)
  next
    case False
    with j have jl: "L - 1 = j" by simp
    have le: "j * K \<le> s" using below unfolding jl by simp
    have "min (s - j * K) K = s - j * K" using last unfolding jl by simp
    then have "(of_nat (min (s - j * K) K) :: u64) = sz - of_nat j * mc"
      using sub [OF le] by simp
    with False show ?thesis by (simp only: K_def s_def if_False)
  qed
  have "unat (sz - of_nat (L - 1) * mc) = s - (L - 1) * K"
  proof -
    have "sz - of_nat (L - 1) * mc = of_nat (s - (L - 1) * K)"
      using sub [of "L - 1"] below by simp
    moreover have "s - (L - 1) * K < 2 ^ 64"
      using unsigned_less [of sz, where 'a = nat] by (simp add: s_def)
    ultimately show ?thesis by (simp add: unat_of_nat)
  qed
  with last show "sz - of_nat (L - 1) * mc \<le> mc"
    by (simp add: word_le_nat_alt K_def)
  show "min (unat sz - j * unat mc) (unat mc) = unat mc \<or> j = L - 1"
  proof (cases "Suc j < L")
    case True
    with full show ?thesis by (simp add: K_def s_def min_def)
  next
    case False
    with j have "j = L - 1" by arith
    then show ?thesis by (rule disjI2)
  qed
qed

text \<open>The unmap algorithm on a mapped scatter-gather token whose table has
  \<open>ceil (size / min_contig)\<close> entries, in every run in which no assertion fires, that is,
  with debug assertions compiled out or with every unmap call succeeding: each entry is
  unmapped, in order, at the length \<^verbatim>\<open>min_contig\<close> except the last, which is unmapped
  at what is left of the size; the status is that of the first call that failed; and
  afterwards every entry is the sentinel.\<close>

lemma Unmap_walk_no_assert_fires:
  assumes sg: "\<not> pmt_is_contiguous tok"
    and valid: "all_valid (pmt_mapped_addrs tok)" and ne: "pmt_mapped_addrs tok \<noteq> []"
    and mc: "minimum_contiguity e \<noteq> 0"
    and len: "length (pmt_mapped_addrs tok)
                = (unat (pmt_size tok) + unat (minimum_contiguity e) - 1)
                    div unat (minimum_contiguity e)"
    and quiet: "debug_asserts e \<longrightarrow>
                  (\<forall>j<length (pmt_mapped_addrs tok).
                      Unmap_result e (length (iommu_calls w) + j) = ZX_OK)"
  shows "UnmapFromIommuLocked e tok w
           = Inr (first_error (map (\<lambda>j. Unmap_result e (length (iommu_calls w) + j))
                                 [0..<length (pmt_mapped_addrs tok)]),
                  tok\<lparr>pmt_mapped_addrs := replicate (length (pmt_mapped_addrs tok)) UINT64_MAX\<rparr>,
                  w\<lparr>iommu_calls := iommu_calls w @
                       map (\<lambda>j. IommuUnmap (pmt_mapped_addrs tok ! j)
                                  (if Suc j < length (pmt_mapped_addrs tok)
                                   then minimum_contiguity e
                                   else pmt_size tok - of_nat j * minimum_contiguity e))
                           [0..<length (pmt_mapped_addrs tok)]\<rparr>)"
    and "pmt_size tok - of_nat (length (pmt_mapped_addrs tok) - 1) * minimum_contiguity e
           \<le> minimum_contiguity e"
proof -
  have v: "\<forall>j<length (pmt_mapped_addrs tok). pmt_mapped_addrs tok ! j \<noteq> UINT64_MAX"
    using valid by (simp add: all_valid_def list_all_length)
  from ne v obtain a0 rest where c: "pmt_mapped_addrs tok = a0 # rest" "a0 \<noteq> UINT64_MAX"
    by (cases "pmt_mapped_addrs tok") auto
  have sizes: "map (\<lambda>j. IommuUnmap (pmt_mapped_addrs tok ! (0 + j))
                  (of_nat (min (unat (pmt_size tok) - j * unat (minimum_contiguity e))
                               (unat (minimum_contiguity e)))))
                 [0..<length (pmt_mapped_addrs tok) - 0]
             = map (\<lambda>j. IommuUnmap (pmt_mapped_addrs tok ! j)
                                  (if Suc j < length (pmt_mapped_addrs tok)
                                   then minimum_contiguity e
                                   else pmt_size tok - of_nat j * minimum_contiguity e))
                   [0..<length (pmt_mapped_addrs tok)]"
    by (rule map_cong) (simp_all add: walk_sizes(1) [OF mc len])
  have asserts: "\<forall>j<length (pmt_mapped_addrs tok) - 0.
           Unmap_result e (length (iommu_calls w) + j) = ZX_OK
           \<and> (min (unat (pmt_size tok) - j * unat (minimum_contiguity e))
                   (unat (minimum_contiguity e)) = unat (minimum_contiguity e)
              \<or> 0 + j = length (pmt_mapped_addrs tok) - 1)"
    if "debug_asserts e"
    using quiet that walk_sizes(3) [OF mc len] by simp
  have walk0: "unmap_walk e (pmt_mapped_addrs tok) 0 (pmt_size tok) ZX_OK w
          = Inr (first_error (ZX_OK # map (\<lambda>j. Unmap_result e (length (iommu_calls w) + j))
                                 [0..<length (pmt_mapped_addrs tok) - 0]),
                 w\<lparr>iommu_calls := iommu_calls w @
                       map (\<lambda>j. IommuUnmap (pmt_mapped_addrs tok ! (0 + j))
                              (of_nat (min (unat (pmt_size tok) - j * unat (minimum_contiguity e))
                                           (unat (minimum_contiguity e)))))
                           [0..<length (pmt_mapped_addrs tok) - 0]\<rparr>)"
  proof (rule unmap_walk_asserts_pass [OF v])
    show "0 \<le> length (pmt_mapped_addrs tok)" by simp
  next
    assume "debug_asserts e"
    then show "\<forall>j<length (pmt_mapped_addrs tok) - 0.
           Unmap_result e (length (iommu_calls w) + j) = ZX_OK
           \<and> (min (unat (pmt_size tok) - j * unat (minimum_contiguity e))
                   (unat (minimum_contiguity e)) = unat (minimum_contiguity e)
              \<or> 0 + j = length (pmt_mapped_addrs tok) - 1)"
      by (rule asserts)
  qed
  have "unmap_walk e (pmt_mapped_addrs tok) 0 (pmt_size tok) ZX_OK w
          = Inr (first_error (map (\<lambda>j. Unmap_result e (length (iommu_calls w) + j))
                                 [0..<length (pmt_mapped_addrs tok)]),
                 w\<lparr>iommu_calls := iommu_calls w @
                       map (\<lambda>j. IommuUnmap (pmt_mapped_addrs tok ! j)
                                  (if Suc j < length (pmt_mapped_addrs tok)
                                   then minimum_contiguity e
                                   else pmt_size tok - of_nat j * minimum_contiguity e))
                           [0..<length (pmt_mapped_addrs tok)]\<rparr>)"
    using walk0 sizes by simp
  then show "UnmapFromIommuLocked e tok w
           = Inr (first_error (map (\<lambda>j. Unmap_result e (length (iommu_calls w) + j))
                                 [0..<length (pmt_mapped_addrs tok)]),
                  tok\<lparr>pmt_mapped_addrs := replicate (length (pmt_mapped_addrs tok)) UINT64_MAX\<rparr>,
                  w\<lparr>iommu_calls := iommu_calls w @
                       map (\<lambda>j. IommuUnmap (pmt_mapped_addrs tok ! j)
                                  (if Suc j < length (pmt_mapped_addrs tok)
                                   then minimum_contiguity e
                                   else pmt_size tok - of_nat j * minimum_contiguity e))
                           [0..<length (pmt_mapped_addrs tok)]\<rparr>)"
    using c sg by (simp add: UnmapFromIommuLocked_def Invalidate_eq)
  have "0 < length (pmt_mapped_addrs tok)" using ne by simp
  from walk_sizes(2) [OF mc len this]
  show "pmt_size tok - of_nat (length (pmt_mapped_addrs tok) - 1) * minimum_contiguity e
           \<le> minimum_contiguity e" .
qed

text \<open>In a build with debug assertions, the unmap algorithm on a mapped scatter-gather
  token ends in an assertion as soon as one unmap call of the walk fails.\<close>

lemma Unmap_walk_assert_fires:
  assumes sg: "\<not> pmt_is_contiguous tok"
    and valid: "all_valid (pmt_mapped_addrs tok)"
    and dbg: "debug_asserts e"
    and err: "\<exists>j<length (pmt_mapped_addrs tok).
                 Unmap_result e (length (iommu_calls w) + j) \<noteq> ZX_OK"
  shows "UnmapFromIommuLocked e tok w = Inl DebugAssertFailed"
proof -
  have v: "\<forall>j<length (pmt_mapped_addrs tok). pmt_mapped_addrs tok ! j \<noteq> UINT64_MAX"
    using valid by (simp add: all_valid_def list_all_length)
  from err have ne: "pmt_mapped_addrs tok \<noteq> []" by auto
  from ne v obtain a0 rest where c: "pmt_mapped_addrs tok = a0 # rest" "a0 \<noteq> UINT64_MAX"
    by (cases "pmt_mapped_addrs tok") auto
  have "unmap_walk e (pmt_mapped_addrs tok) 0 (pmt_size tok) ZX_OK w = Inl DebugAssertFailed"
    using unmap_walk_assert_fires [OF dbg v, where i = 0 and w = w
                                     and remaining = "pmt_size tok" and status = ZX_OK] err
    by simp
  then show ?thesis
    using c sg by (simp add: UnmapFromIommuLocked_def)
qed

lemma ex_unmap_walk_release:
  "UnmapFromIommuLocked
      (ex_env\<lparr>minimum_contiguity := 0x2000, debug_asserts := False,
               Unmap_result := (\<lambda>n. if n = 0 then ZX_ERR_NO_MEMORY else ZX_ERR_INTERNAL)\<rparr>)
      (ex_pmt\<lparr>pmt_size := 0x3000\<rparr>) ex_world
     = Inr (ZX_ERR_NO_MEMORY,
            ex_pmt\<lparr>pmt_size := 0x3000, pmt_mapped_addrs := [UINT64_MAX, UINT64_MAX]\<rparr>,
            ex_world\<lparr>iommu_calls := [IommuUnmap 0x10000 0x2000, IommuUnmap 0x20000 0x1000]\<rparr>)"
  using Unmap_walk_no_assert_fires(1)
      [of "ex_pmt\<lparr>pmt_size := 0x3000\<rparr>"
          "ex_env\<lparr>minimum_contiguity := 0x2000, debug_asserts := False,
               Unmap_result := (\<lambda>n. if n = 0 then ZX_ERR_NO_MEMORY else ZX_ERR_INTERNAL)\<rparr>"
          ex_world]
  by (simp add: ex_env_def ex_pmt_def ex_world_def all_valid_def UINT64_MAX_def
        upt_rec [of 0] upt_rec [of "Suc _"])

lemma ex_unmap_walk_debug:
  "UnmapFromIommuLocked
      (ex_env\<lparr>Unmap_result := (\<lambda>n. if n = 1 then ZX_ERR_NO_MEMORY else ZX_OK)\<rparr>)
      ex_pmt ex_world
     = Inl DebugAssertFailed"
proof -
  have "\<exists>j<length (pmt_mapped_addrs ex_pmt).
          Unmap_result (ex_env\<lparr>Unmap_result := (\<lambda>n. if n = 1 then ZX_ERR_NO_MEMORY else ZX_OK)\<rparr>)
             (length (iommu_calls ex_world) + j) \<noteq> ZX_OK"
    by (rule exI [of _ 1]) (simp add: ex_pmt_def ex_world_def)
  from Unmap_walk_assert_fires [OF _ _ _ this] show ?thesis
    by (simp add: ex_env_def ex_pmt_def all_valid_def UINT64_MAX_def)
qed

text \<open>
  C7. The claim: in the scatter-gather unmap walk each entry is unmapped at
  \<^verbatim>\<open>min_contig\<close> length except possibly the last; if an unmap call errors, the walk
  goes on unmapping the remaining entries and reports the first error; after the walk
  every entry is reset to the sentinel. The code says the same in its comment before the
  unmap call, and asserts \<^verbatim>\<open>err == ZX_OK\<close> right after it. So in a build with debug
  assertions the code does not do what the claim and the comment say. On the token
  \<open>ex_pmt\<close>, two entries of one chunk each, with the first unmap call failing for want of
  memory, the build with debug assertions stops in the assertion: the second entry is
  never unmapped, no status is returned and the table is not reset. The same call in a
  build without debug assertions unmaps both entries, returns the error of the first
  call and resets the table.
\<close>

theorem debug_build_stops_at_first_unmap_error:
  "debug_asserts ex_env
   \<and> UnmapFromIommuLocked
        (ex_env\<lparr>Unmap_result := (\<lambda>n. if n = 0 then ZX_ERR_NO_MEMORY else ZX_OK)\<rparr>)
        ex_pmt ex_world
      = Inl DebugAssertFailed
   \<and> UnmapFromIommuLocked
        (ex_env\<lparr>debug_asserts := False,
                 Unmap_result := (\<lambda>n. if n = 0 then ZX_ERR_NO_MEMORY else ZX_OK)\<rparr>)
        ex_pmt ex_world
      = Inr (ZX_ERR_NO_MEMORY,
             ex_pmt\<lparr>pmt_mapped_addrs := [UINT64_MAX, UINT64_MAX]\<rparr>,
             ex_world\<lparr>iommu_calls := [IommuUnmap 0x10000 0x1000, IommuUnmap 0x20000 0x1000]\<rparr>)"
  by (simp add: UnmapFromIommuLocked_def ex_pmt_def ex_env_def ex_world_def unmap_walk_eval
        UINT64_MAX_def DEBUG_ASSERT_def Let_def Invalidate_eq)

subsection \<open>The contiguous policy meets an address that does not fit\<close>

text \<open>The contiguous loop, one iteration at a time.\<close>

lemma map_contig_loop_continue:
  assumes "remaining \<noteq> 0"
    and "Map_result e (length (iommu_calls w)) = (ZX_OK, vaddr, mapped_len)"
    and "vaddr_base = kInvalidAddr \<or> vaddr = vaddr_base + cur - pmt_offset tok"
  shows "map_contig_loop (Suc fuel) e perms tok vaddr_base remaining cur w
           = map_contig_loop fuel e perms tok
               (if vaddr_base = kInvalidAddr then vaddr else vaddr_base)
               (remaining - mapped_len) (cur + mapped_len)
               (w\<lparr>iommu_calls := iommu_calls w @ [IommuMap cur remaining perms]\<rparr>)"
  using assms by (auto simp: iommu_Map_def Let_def)









subsection \<open>The table is all addresses or all sentinel\<close>

text \<open>What one run of the inner loop writes: entries \<open>idx\<close> up to \<open>idx'\<close>, each a chunk
  start \<open>v + j * min_contig\<close>, enough of them to cover the mapped length.\<close>

lemma fill_chunks_spec:
  assumes mc: "mc \<noteq> 0"
  shows "fill_chunks mc addrs idx v m = Inr (addrs', idx') \<Longrightarrow>
         (\<forall>j. v + of_nat j * mc \<noteq> UINT64_MAX) \<Longrightarrow>
           length addrs' = length addrs \<and> idx \<le> idx'
           \<and> (m \<noteq> 0 \<longrightarrow> idx' \<le> length addrs)
           \<and> (\<forall>i<length addrs. (idx \<le> i \<and> i < idx' \<longrightarrow> addrs' ! i \<noteq> UINT64_MAX)
                                 \<and> (\<not> (idx \<le> i \<and> i < idx') \<longrightarrow> addrs' ! i = addrs ! i))
           \<and> unat m \<le> (idx' - idx) * unat mc"
proof (induction "length addrs - idx" arbitrary: addrs idx v m)
  case 0
  show ?case
  proof (cases "m = 0")
    case True
    with "0.prems" show ?thesis by (auto simp: fill_chunks_done)
  next
    case False
    with "0.hyps" "0.prems" show ?thesis by (simp add: fill_chunks_out)
  qed
next
  case (Suc n)
  show ?case
  proof (cases "m = 0")
    case True
    with Suc.prems show ?thesis by (auto simp: fill_chunks_done)
  next
    case False
    from Suc.hyps(2) have idx: "idx < length addrs" by simp
    define addrs1 where "addrs1 = addrs[idx := v]"
    have v: "v \<noteq> UINT64_MAX" using Suc.prems(2) [rule_format, of 0] by simp
    have step: "fill_chunks mc addrs idx v m
                  = fill_chunks mc addrs1 (Suc idx) (v + min m mc) (m - min m mc)"
      using False idx by (simp add: fill_chunks_next addrs1_def)
    show ?thesis
    proof (cases "m \<le> mc")
      case True
      then have "min m mc = m" by simp
      with step Suc.prems(1) have r: "addrs' = addrs1" "idx' = Suc idx"
        by (simp_all add: fill_chunks_done)
      have "unat m \<le> unat mc" using True by (simp add: word_le_nat_alt)
      with r idx v show ?thesis
        by (auto simp: addrs1_def nth_list_update)
    next
      case big: False
      then have min: "min m mc = mc" by simp
      have rest: "\<forall>j. v + mc + of_nat j * mc \<noteq> UINT64_MAX"
      proof
        fix j
        have "v + mc + of_nat j * mc = v + of_nat (Suc j) * mc"
          by (simp add: algebra_simps)
        with Suc.prems(2) show "v + mc + of_nat j * mc \<noteq> UINT64_MAX" by metis
      qed
      have call: "fill_chunks mc addrs1 (Suc idx) (v + mc) (m - mc) = Inr (addrs', idx')"
        using step Suc.prems(1) min by simp
      have n: "n = length addrs1 - Suc idx" using Suc.hyps(2) by (simp add: addrs1_def)
      from Suc.hyps(1) [OF n call rest]
      have ih: "length addrs' = length addrs1" "Suc idx \<le> idx'"
        "m - mc \<noteq> 0 \<longrightarrow> idx' \<le> length addrs1"
        "\<forall>i<length addrs1. (Suc idx \<le> i \<and> i < idx' \<longrightarrow> addrs' ! i \<noteq> UINT64_MAX)
                                 \<and> (\<not> (Suc idx \<le> i \<and> i < idx') \<longrightarrow> addrs' ! i = addrs1 ! i)"
        "unat (m - mc) \<le> (idx' - Suc idx) * unat mc"
        by simp_all
      have mcle: "mc \<le> m" using big by simp
      then have um: "unat (m - mc) = unat m - unat mc" by (rule unat_sub)
      have ule: "unat mc \<le> unat m" using mcle by (simp add: word_le_nat_alt)
      have neq: "m - mc \<noteq> 0" using big by auto
      have cov: "unat m \<le> (idx' - idx) * unat mc"
      proof -
        have "idx' - idx = Suc (idx' - Suc idx)" using ih(2) by simp
        then have "(idx' - idx) * unat mc = (idx' - Suc idx) * unat mc + unat mc"
          by simp
        with ih(5) um ule show ?thesis by linarith
      qed
      have ent: "\<forall>i<length addrs. (idx \<le> i \<and> i < idx' \<longrightarrow> addrs' ! i \<noteq> UINT64_MAX)
                                 \<and> (\<not> (idx \<le> i \<and> i < idx') \<longrightarrow> addrs' ! i = addrs ! i)"
      proof (intro allI impI)
        fix i assume i: "i < length addrs"
        show "(idx \<le> i \<and> i < idx' \<longrightarrow> addrs' ! i \<noteq> UINT64_MAX)
                                 \<and> (\<not> (idx \<le> i \<and> i < idx') \<longrightarrow> addrs' ! i = addrs ! i)"
        proof (cases "i = idx")
          case True
          with ih(2,4) i v idx show ?thesis by (auto simp: addrs1_def)
        next
          case False
          with ih(4) i show ?thesis by (auto simp: addrs1_def)
        qed
      qed
      from ih(1-3) neq cov ent show ?thesis by (simp add: addrs1_def)
    qed
  qed
qed

text \<open>The scatter-gather loop keeps the table filled up to \<open>next_addr_idx\<close> and invalid
  from there on, with the filled entries covering what has been mapped of the \<open>s0\<close>
  bytes of the range. It ends with a table that is all addresses (on \<^verbatim>\<open>ZX_OK\<close>) or
  all sentinel (on an error).\<close>

lemma map_sg_loop_binary:
  assumes mc: "minimum_contiguity e \<noteq> 0" and res: "sentinel_reserved e"
  shows "map_sg_loop fuel e perms tok remaining cur idx w = Some (Inr (st, tok', w')) \<Longrightarrow>
         idx \<le> length (pmt_mapped_addrs tok) \<Longrightarrow>
         (\<forall>i<length (pmt_mapped_addrs tok).
             (i < idx \<longrightarrow> pmt_mapped_addrs tok ! i \<noteq> UINT64_MAX)
             \<and> (idx \<le> i \<longrightarrow> pmt_mapped_addrs tok ! i = UINT64_MAX)) \<Longrightarrow>
         s0 - unat remaining \<le> idx * unat (minimum_contiguity e) \<Longrightarrow>
         length (pmt_mapped_addrs tok) * unat (minimum_contiguity e)
           < s0 + unat (minimum_contiguity e) \<Longrightarrow>
         (if st = ZX_OK then all_valid (pmt_mapped_addrs tok')
          else all_invalid (pmt_mapped_addrs tok'))"
proof (induction fuel arbitrary: tok remaining cur idx w)
  case 0
  then show ?case by simp
next
  case (Suc fuel)
  define K where "K = unat (minimum_contiguity e)"
  define L where "L = length (pmt_mapped_addrs tok)"
  have K: "0 < K" using mc by (simp add: K_def unat_gt_0)
  note inv = Suc.prems(3) [folded L_def]
  show ?case
  proof (cases "remaining = 0")
    case True
    with Suc.prems(1) have r: "st = ZX_OK" "tok' = tok"
      by (auto split: if_splits)
    from True Suc.prems(4,5) have "L * K < idx * K + K"
      by (simp add: K_def L_def)
    then have "L * K < Suc idx * K" by simp
    then have "L < Suc idx" using K by (simp only: mult_less_cancel2)
    with Suc.prems(2) have "idx = L" by (simp add: L_def)
    with inv r show ?thesis
      by (simp add: all_valid_def list_all_length L_def)
  next
    case False
    obtain s v l where m: "Map_result e (length (iommu_calls w)) = (s, v, l)"
      by (cases "Map_result e (length (iommu_calls w))") auto
    let ?w1 = "w\<lparr>iommu_calls := iommu_calls w @ [IommuMap cur remaining perms]\<rparr>"
    show ?thesis
    proof (cases "s = ZX_OK")
      case ok: True
      with Suc.prems(1) False m obtain addrs' idx' where
        f: "fill_chunks (minimum_contiguity e) (pmt_mapped_addrs tok) idx v l = Inr (addrs', idx')"
        and r: "map_sg_loop fuel e perms (tok\<lparr>pmt_mapped_addrs := addrs'\<rparr>)
                  (remaining - min l remaining) (cur + l) idx' ?w1 = Some (Inr (st, tok', w'))"
        by (auto simp: Let_def iommu_Map_def split: if_splits sum.splits prod.splits)
      from res m ok have nosent: "\<forall>j. v + of_nat j * minimum_contiguity e \<noteq> UINT64_MAX"
        by (auto simp: sentinel_reserved_def)
      from fill_chunks_spec [OF mc f nosent]
      have fc: "length addrs' = L" "idx \<le> idx'" "l \<noteq> 0 \<longrightarrow> idx' \<le> L"
        "\<forall>i<L. (idx \<le> i \<and> i < idx' \<longrightarrow> addrs' ! i \<noteq> UINT64_MAX)
                \<and> (\<not> (idx \<le> i \<and> i < idx') \<longrightarrow> addrs' ! i = pmt_mapped_addrs tok ! i)"
        "unat l \<le> (idx' - idx) * K"
        by (simp_all add: L_def K_def)
      have "idx' = idx" if "l = 0"
        using f that by (simp add: fill_chunks_done)
      with fc(3) Suc.prems(2) have i1: "idx' \<le> L" by (auto simp: L_def)
      have i2: "\<forall>i<L. (i < idx' \<longrightarrow> addrs' ! i \<noteq> UINT64_MAX)
                      \<and> (idx' \<le> i \<longrightarrow> addrs' ! i = UINT64_MAX)"
      proof (intro allI impI)
        fix i assume i: "i < L"
        show "(i < idx' \<longrightarrow> addrs' ! i \<noteq> UINT64_MAX) \<and> (idx' \<le> i \<longrightarrow> addrs' ! i = UINT64_MAX)"
          using fc(2) fc(4) [rule_format, OF i] inv [rule_format, OF i]
          by (cases "idx \<le> i") auto
      qed
      have "min l remaining \<le> remaining" by simp
      then have ur: "unat (remaining - min l remaining)
                       = unat remaining - min (unat l) (unat remaining)"
        by (simp add: unat_sub unat_min)
      have "(idx' - idx) * K + idx * K = idx' * K"
        using fc(2) by (simp add: algebra_simps flip: add_mult_distrib)
      with fc(5) Suc.prems(4) ur
      have i3: "s0 - unat (remaining - min l remaining) \<le> idx' * K"
        unfolding K_def by linarith
      have "if st = ZX_OK then all_valid (pmt_mapped_addrs tok')
            else all_invalid (pmt_mapped_addrs tok')"
        by (rule Suc.IH [OF r]) (use i1 i2 i3 fc(1) Suc.prems(5) in \<open>simp_all add: L_def K_def\<close>)
      then show ?thesis .
    next
      case False
      with Suc.prems(1) \<open>remaining \<noteq> 0\<close> m obtain err where
        u: "UnmapFromIommuLocked e tok ?w1 = Inr (err, tok', w')" and st: "st = s"
        by (auto simp: Let_def iommu_Map_def split: if_splits sum.splits prod.splits)
      have ne: "pmt_mapped_addrs tok \<noteq> []" by (rule Unmap_Inr_cases(1) [OF u])
      from Unmap_Inr_cases(2) [OF u] have "all_invalid (pmt_mapped_addrs tok')"
      proof
        assume a: "hd (pmt_mapped_addrs tok) = UINT64_MAX \<and> err = ZX_OK \<and> tok' = tok \<and> w' = ?w1"
        with ne have "pmt_mapped_addrs tok ! 0 = UINT64_MAX" by (simp add: hd_conv_nth)
        with inv [rule_format, of 0] ne have "idx = 0" by (auto simp: L_def)
        with inv a show ?thesis
          by (simp add: all_invalid_def list_all_length L_def)
      next
        assume "hd (pmt_mapped_addrs tok) \<noteq> UINT64_MAX \<and> tok' = InvalidateMappedAddrsLocked tok"
        then show ?thesis by (simp add: Invalidate_addrs)
      qed
      with False st show ?thesis by simp
    qed
  qed
qed

text \<open>The contiguous branch: the entries stride from the base, and the base is an address
  that a map call returned.\<close>

lemma stride_loop_nth:
  "0 < i \<Longrightarrow> i \<le> length addrs \<Longrightarrow> j < length addrs \<Longrightarrow>
     stride_loop mc i addrs ! j
       = (if j < i then addrs ! j else addrs ! (i - 1) + of_nat (j - (i - 1)) * mc)"
proof (induction "length addrs - i" arbitrary: i addrs)
  case 0
  then show ?case by (simp add: stride_loop_done)
next
  case (Suc n)
  from Suc.hyps(2) have i: "i < length addrs" by simp
  define addrs1 where "addrs1 = addrs[i := addrs ! (i - 1) + mc]"
  have step: "stride_loop mc i addrs = stride_loop mc (Suc i) addrs1"
    using i by (simp add: stride_loop_next addrs1_def)
  have n: "n = length addrs1 - Suc i" using Suc.hyps(2) by (simp add: addrs1_def)
  have ih: "stride_loop mc (Suc i) addrs1 ! j
       = (if j < Suc i then addrs1 ! j else addrs1 ! i + of_nat (j - i) * mc)"
    using Suc.hyps(1) [OF n] i Suc.prems(3) by (simp add: addrs1_def)
  consider "j < i" | "j = i" | "i < j" by linarith
  then show ?case
  proof cases
    case 1
    with ih step show ?thesis by (simp add: addrs1_def)
  next
    case 2
    with ih step i Suc.prems(1) show ?thesis by (simp add: addrs1_def)
  next
    case 3
    then have "j - (i - 1) = Suc (j - i)" using Suc.prems(1) by simp
    with 3 ih step i show ?thesis by (simp add: addrs1_def algebra_simps)
  qed
qed

lemma map_contig_loop_base:
  "map_contig_loop fuel e perms tok base remaining cur w = Some (Inr b, w') \<Longrightarrow>
     (b = base \<and> (remaining = 0 \<or> base \<noteq> kInvalidAddr))
     \<or> (\<exists>n l. Map_result e n = (ZX_OK, b, l))"
proof (induction fuel arbitrary: base remaining cur w)
  case 0
  then show ?case by simp
next
  case (Suc fuel)
  show ?case
  proof (cases "remaining = 0")
    case True
    with Suc.prems show ?thesis by simp
  next
    case False
    obtain s v l where m: "Map_result e (length (iommu_calls w)) = (s, v, l)"
      by (cases "Map_result e (length (iommu_calls w))") auto
    let ?w1 = "w\<lparr>iommu_calls := iommu_calls w @ [IommuMap cur remaining perms]\<rparr>"
    from Suc.prems False m have ok: "s = ZX_OK"
      by (auto simp: Let_def iommu_Map_def split: if_splits)
    show ?thesis
    proof (cases "base = kInvalidAddr")
      case True
      with Suc.prems False m ok
      have "map_contig_loop fuel e perms tok v (remaining - l) (cur + l) ?w1 = Some (Inr b, w')"
        by (simp add: Let_def iommu_Map_def)
      from Suc.IH [OF this] m ok show ?thesis by auto
    next
      case nb: False
      with Suc.prems False m ok
      have "map_contig_loop fuel e perms tok base (remaining - l) (cur + l) ?w1 = Some (Inr b, w')"
        by (auto simp: Let_def iommu_Map_def split: if_splits)
      from Suc.IH [OF this] nb show ?thesis by auto
    qed
  qed
qed

lemma MapIntoIommu_binary:
  assumes mc: "minimum_contiguity e \<noteq> 0" and res: "sentinel_reserved e"
    and inv: "all_invalid (pmt_mapped_addrs tok)"
    and len: "length (pmt_mapped_addrs tok)
                = (unat (pmt_size tok) + unat (minimum_contiguity e) - 1)
                    div unat (minimum_contiguity e)"
    and m: "MapIntoIommu fuel e perms tok w = Some (Inr (st, tok', w'))"
  shows "if st = ZX_OK then all_valid (pmt_mapped_addrs tok')
         else all_invalid (pmt_mapped_addrs tok')"
proof (cases "pmt_is_contiguous tok")
  case False
  define K where "K = unat (minimum_contiguity e)"
  have K: "0 < K" using mc by (simp add: K_def unat_gt_0)
  from False m have l: "map_sg_loop fuel e perms tok (pmt_size tok) (pmt_offset tok) 0 w
                          = Some (Inr (st, tok', w'))"
    by (simp add: MapIntoIommu_def)
  have "(unat (pmt_size tok) + K - 1) div K * K \<le> unat (pmt_size tok) + K - 1" by simp
  then have "(unat (pmt_size tok) + K - 1) div K * K < unat (pmt_size tok) + K"
    using K by linarith
  then have b: "length (pmt_mapped_addrs tok) * K < unat (pmt_size tok) + K"
    unfolding len K_def .
  have e0: "\<forall>i<length (pmt_mapped_addrs tok).
             (i < 0 \<longrightarrow> pmt_mapped_addrs tok ! i \<noteq> UINT64_MAX)
             \<and> (0 \<le> i \<longrightarrow> pmt_mapped_addrs tok ! i = UINT64_MAX)"
    using inv by (simp add: all_invalid_def list_all_length)
  show ?thesis
    by (rule map_sg_loop_binary [OF mc res l, where ?s0.0 = "unat (pmt_size tok)"])
       (use e0 b in \<open>simp_all add: K_def\<close>)
next
  case True
  show ?thesis
  proof (cases "st = ZX_OK")
    case False
    with True m have "tok' = tok"
      by (auto simp: MapIntoIommu_def split: option.splits sum.splits prod.splits list.splits)
    with False inv show ?thesis by simp
  next
    case ok: True
    with True m obtain base w1 a0 rest where
      l: "map_contig_loop fuel e perms tok kInvalidAddr (pmt_size tok) (pmt_offset tok) w
            = Some (Inr base, w1)"
      and c: "pmt_mapped_addrs tok = a0 # rest"
      and t: "pmt_mapped_addrs tok'
                = stride_loop (minimum_contiguity e) 1 ((pmt_mapped_addrs tok)[0 := base])"
      by (auto simp: MapIntoIommu_def split: option.splits sum.splits prod.splits list.splits
               dest: map_contig_loop_Inl)
    have "pmt_size tok \<noteq> 0"
    proof
      assume "pmt_size tok = 0"
      with len mc have "length (pmt_mapped_addrs tok) = 0" by (simp add: unat_gt_0)
      with c show False by simp
    qed
    with map_contig_loop_base [OF l] obtain n l' where "Map_result e n = (ZX_OK, base, l')"
      by auto
    with res have nosent: "\<forall>j. base + of_nat j * minimum_contiguity e \<noteq> UINT64_MAX"
      by (auto simp: sentinel_reserved_def)
    have "pmt_mapped_addrs tok' ! j \<noteq> UINT64_MAX" if "j < length (pmt_mapped_addrs tok')" for j
    proof -
      from that have j: "j < length ((pmt_mapped_addrs tok)[0 := base])" by (simp add: t)
      have "pmt_mapped_addrs tok' ! j = base + of_nat j * minimum_contiguity e"
        unfolding t using stride_loop_nth [of 1 "(pmt_mapped_addrs tok)[0 := base]" j] j c
        by (cases j) simp_all
      with nosent show ?thesis by simp
    qed
    with ok show ?thesis by (simp add: all_valid_def list_all_length)
  qed
qed

lemma Create_binary:
  assumes res: "sentinel_reserved e" and mc: "minimum_contiguity e = 2 ^ k" and k: "k < 64"
    and c: "Create fuel e vmo offset sz perms w = Some (Inr (ZX_OK, Some tok, w'))"
  shows "all_valid (pmt_mapped_addrs tok)"
proof -
  from c obtain contig w0 where
    "Create_pinned fuel e vmo offset sz perms contig w0 = Some (Inr (ZX_OK, Some tok, w'))"
    by (auto simp: Create_def Let_def split: if_splits)
  from Create_pinned_OK [OF this] obtain p tok0 w1 where
    tok0: "tok0 = fst (PinnedMemoryTokenDispatcher p vmo offset sz contig
                   (replicate (unat (ROUNDUP sz (minimum_contiguity e) div minimum_contiguity e)) 0)
                   w0)"
    and m: "MapIntoIommu fuel e perms tok0 w1 = Some (Inr (ZX_OK, tok, w'))"
    by blast
  have K: "unat (minimum_contiguity e) = 2 ^ k" unfolding mc by (rule unat_2p [OF k])
  then have mc0: "minimum_contiguity e \<noteq> 0" by (auto simp: unat_eq_zero)
  have inv: "all_invalid (pmt_mapped_addrs tok0)"
    by (simp add: tok0 PinnedMemoryTokenDispatcher_def Invalidate_eq)
  have sz: "pmt_size tok0 = sz"
    by (simp add: tok0 PinnedMemoryTokenDispatcher_def Invalidate_eq)
  have "length (pmt_mapped_addrs tok0) = length (pmt_mapped_addrs tok)"
    using MapIntoIommu_frame(2) [OF m] by simp
  also have "\<dots> = (unat sz + 2 ^ k - 1) div 2 ^ k"
    by (rule Create_table_length [OF c mc k])
  finally have len: "length (pmt_mapped_addrs tok0)
                = (unat (pmt_size tok0) + unat (minimum_contiguity e) - 1)
                    div unat (minimum_contiguity e)"
    by (simp add: sz K)
  from MapIntoIommu_binary [OF mc0 res inv len m] show ?thesis by simp
qed

lemma even_not_sentinel: "even (a :: u64) \<Longrightarrow> a \<noteq> UINT64_MAX"
  by (auto simp: UINT64_MAX_def)

lemma ex_sentinel_reserved: "sentinel_reserved ex_env"
  by (auto simp: sentinel_reserved_def ex_env_def intro!: even_not_sentinel)

lemma ex_Map:
  "MapIntoIommu (Suc (Suc (Suc 0))) ex_env 0
      (ex_pmt\<lparr>pmt_mapped_addrs := [UINT64_MAX, UINT64_MAX]\<rparr>) ex_world
     = Some (Inr (ZX_OK, ex_pmt,
                  ex_world\<lparr>iommu_calls := [IommuMap 0 0x2000 0, IommuMap 0x1000 0x1000 0]\<rparr>))"
  by (simp add: run_defs ex_env_def ex_pmt_def ex_world_def)

text \<open>
  C6. Every operation on a token that completes leaves the address table all addresses
  or all sentinel, given that it found it so and that the sentinel is a reserved value
  (no chunk that the IOMMU maps starts at \<^verbatim>\<open>UINT64_MAX\<close>):
  the unmap algorithm, the drop of the last handle and the destructor's unmap leave
  every entry the sentinel; \<^verbatim>\<open>MarkUnpinned\<close> does not touch the table; mapping,
  run on the invalidated table of \<open>ceil (size / minimum_contiguity)\<close> entries that
  the constructor leaves, ends with every entry an address when it returns
  \<^verbatim>\<open>ZX_OK\<close> and with every entry the sentinel when it returns an error; and the
  token that \<^verbatim>\<open>Create\<close> hands out has every entry an address. No operation
  completes on a table that is filled in part.
\<close>

theorem table_is_all_addresses_or_all_sentinel:
  "(binary_state (pmt_mapped_addrs tok) \<and> UnmapFromIommuLocked e tok w = Inr (st, tok', w')
      \<longrightarrow> all_invalid (pmt_mapped_addrs tok') \<and> binary_state (pmt_mapped_addrs tok'))
   \<and> (binary_state (pmt_mapped_addrs tokz) \<and> on_zero_handles ez tokz wz = Inr (tokz', wz')
      \<longrightarrow> all_invalid (pmt_mapped_addrs tokz') \<and> binary_state (pmt_mapped_addrs tokz'))
   \<and> (binary_state (pmt_mapped_addrs toku)
      \<longrightarrow> binary_state (pmt_mapped_addrs (MarkUnpinned toku)))
   \<and> (binary_state (pmt_mapped_addrs tokd) \<and> destructor ed tokd wd = Inr wd'
      \<longrightarrow> (\<exists>tokd' wd''. UnmapFromIommuLocked ed tokd wd = Inr (ZX_OK, tokd', wd'')
                        \<and> all_invalid (pmt_mapped_addrs tokd')))
   \<and> (sentinel_reserved em \<and> minimum_contiguity em \<noteq> 0
       \<and> all_invalid (pmt_mapped_addrs tokm)
       \<and> length (pmt_mapped_addrs tokm)
           = (unat (pmt_size tokm) + unat (minimum_contiguity em) - 1)
               div unat (minimum_contiguity em)
       \<and> MapIntoIommu fuel em perms tokm wm = Some (Inr (stm, tokm', wm'))
      \<longrightarrow> (if stm = ZX_OK then all_valid (pmt_mapped_addrs tokm')
           else all_invalid (pmt_mapped_addrs tokm'))
          \<and> binary_state (pmt_mapped_addrs tokm'))
   \<and> (sentinel_reserved ec \<and> minimum_contiguity ec = 2 ^ k \<and> k < 64
       \<and> Create fuelc ec vmo offset sz permsc wc = Some (Inr (ZX_OK, Some tokc, wc'))
      \<longrightarrow> all_valid (pmt_mapped_addrs tokc) \<and> binary_state (pmt_mapped_addrs tokc))"
proof (intro conjI impI; (elim conjE)?)
  assume "binary_state (pmt_mapped_addrs tok)" "UnmapFromIommuLocked e tok w = Inr (st, tok', w')"
  then show "all_invalid (pmt_mapped_addrs tok')" by (rule Unmap_all_invalid [rotated])
  then show "binary_state (pmt_mapped_addrs tok')" by (simp add: binary_state_def)
next
  assume b: "binary_state (pmt_mapped_addrs tokz)" and z: "on_zero_handles ez tokz wz = Inr (tokz', wz')"
  from z obtain w1 where "UnmapFromIommuLocked ez tokz wz = Inr (ZX_OK, tokz', w1)"
    by (auto simp: on_zero_handles_def split: sum.splits prod.splits if_splits)
  from Unmap_all_invalid [OF this b] show "all_invalid (pmt_mapped_addrs tokz')" .
  then show "binary_state (pmt_mapped_addrs tokz')" by (simp add: binary_state_def)
next
  assume "binary_state (pmt_mapped_addrs toku)"
  then show "binary_state (pmt_mapped_addrs (MarkUnpinned toku))" by (simp add: MarkUnpinned_def)
next
  assume b: "binary_state (pmt_mapped_addrs tokd)" and d: "destructor ed tokd wd = Inr wd'"
  from destructor_Inr(1) [OF d] obtain tok1 w1 where
    u: "UnmapFromIommuLocked ed tokd wd = Inr (ZX_OK, tok1, w1)" by blast
  with Unmap_all_invalid [OF u b]
  show "\<exists>tokd' wd''. UnmapFromIommuLocked ed tokd wd = Inr (ZX_OK, tokd', wd'')
                        \<and> all_invalid (pmt_mapped_addrs tokd')" by blast
next
  assume a: "sentinel_reserved em" "minimum_contiguity em \<noteq> 0"
    "all_invalid (pmt_mapped_addrs tokm)"
    "length (pmt_mapped_addrs tokm)
           = (unat (pmt_size tokm) + unat (minimum_contiguity em) - 1)
               div unat (minimum_contiguity em)"
    "MapIntoIommu fuel em perms tokm wm = Some (Inr (stm, tokm', wm'))"
  from MapIntoIommu_binary [OF a(2,1,3,4,5)]
  show r: "if stm = ZX_OK then all_valid (pmt_mapped_addrs tokm')
           else all_invalid (pmt_mapped_addrs tokm')" .
  then show "binary_state (pmt_mapped_addrs tokm')"
    by (simp add: binary_state_def split: if_splits)
next
  assume a: "sentinel_reserved ec" "minimum_contiguity ec = 2 ^ k" "k < 64"
    "Create fuelc ec vmo offset sz permsc wc = Some (Inr (ZX_OK, Some tokc, wc'))"
  from Create_binary [OF a] show "all_valid (pmt_mapped_addrs tokc)" .
  then show "binary_state (pmt_mapped_addrs tokc)" by (simp add: binary_state_def)
qed

theorem table_is_all_addresses_or_all_sentinel_witness:
  "binary_state (pmt_mapped_addrs ex_pmt)
   \<and> UnmapFromIommuLocked ex_env ex_pmt ex_world
       = Inr (ZX_OK, ex_pmt\<lparr>pmt_mapped_addrs := [UINT64_MAX, UINT64_MAX]\<rparr>,
              ex_world\<lparr>iommu_calls := [IommuUnmap 0x10000 0x1000, IommuUnmap 0x20000 0x1000]\<rparr>)
   \<and> all_invalid [UINT64_MAX, UINT64_MAX]
   \<and> on_zero_handles ex_env ex_pmt ex_world
       = Inr (ex_pmt\<lparr>pmt_mapped_addrs := [UINT64_MAX, UINT64_MAX]\<rparr>,
              ex_world\<lparr>iommu_calls := [IommuUnmap 0x10000 0x1000, IommuUnmap 0x20000 0x1000],
                        bti_quarantine := [7]\<rparr>)
   \<and> binary_state (pmt_mapped_addrs (MarkUnpinned ex_pmt))
   \<and> MapIntoIommu (Suc (Suc (Suc 0))) ex_env 0
        (ex_pmt\<lparr>pmt_mapped_addrs := [UINT64_MAX, UINT64_MAX]\<rparr>) ex_world
       = Some (Inr (ZX_OK, ex_pmt,
                    ex_world\<lparr>iommu_calls := [IommuMap 0 0x2000 0, IommuMap 0x1000 0x1000 0]\<rparr>))
   \<and> all_valid (pmt_mapped_addrs ex_pmt)"
  using table_is_all_addresses_or_all_sentinel
    [where tok = ex_pmt and e = ex_env and w = ex_world and st = ZX_OK
       and tok' = "ex_pmt\<lparr>pmt_mapped_addrs := [UINT64_MAX, UINT64_MAX]\<rparr>"
       and w' = "ex_world\<lparr>iommu_calls := [IommuUnmap 0x10000 0x1000, IommuUnmap 0x20000 0x1000]\<rparr>"
       and tokz = ex_pmt and ez = ex_env and wz = ex_world
       and tokz' = "ex_pmt\<lparr>pmt_mapped_addrs := [UINT64_MAX, UINT64_MAX]\<rparr>"
       and wz' = "ex_world\<lparr>iommu_calls := [IommuUnmap 0x10000 0x1000, IommuUnmap 0x20000 0x1000],
                        bti_quarantine := [7]\<rparr>"
       and toku = ex_pmt
       and tokd = ex_pmt and ed = ex_env
       and wd = "ex_world\<lparr>iommu_calls := [IommuMap 0 0x2000 0, IommuMap 0x1000 0x1000 0],
                vmo_calls := [VmoCommitRange 0 0x2000, VmoPin 0 0x2000, VmoLookup 0 0x2000],
                bti_pmo_list := [7]\<rparr>"
       and wd' = "ex_world\<lparr>iommu_calls := [IommuMap 0 0x2000 0, IommuMap 0x1000 0x1000 0,
                                       IommuUnmap 0x10000 0x1000, IommuUnmap 0x20000 0x1000],
                      vmo_calls := [VmoCommitRange 0 0x2000, VmoPin 0 0x2000, VmoLookup 0 0x2000,
                                    VmoUnpin 0 0x2000],
                      bti_pmo_list := []\<rparr>"
       and em = ex_env and fuel = "Suc (Suc (Suc 0))" and perms = 0
       and tokm = "ex_pmt\<lparr>pmt_mapped_addrs := [UINT64_MAX, UINT64_MAX]\<rparr>" and wm = ex_world
       and stm = ZX_OK and tokm' = ex_pmt
       and wm' = "ex_world\<lparr>iommu_calls := [IommuMap 0 0x2000 0, IommuMap 0x1000 0x1000 0]\<rparr>"
       and ec = ex_env and k = 12 and fuelc = "Suc (Suc (Suc 0))" and vmo = ex_vmo
       and offset = 0 and sz = "0x2000" and permsc = 0 and wc = ex_world and tokc = ex_pmt
       and wc' = "ex_world\<lparr>iommu_calls := [IommuMap 0 0x2000 0, IommuMap 0x1000 0x1000 0],
                            vmo_calls := [VmoCommitRange 0 0x2000, VmoPin 0 0x2000,
                                          VmoLookup 0 0x2000],
                            bti_pmo_list := [7]\<rparr>"]
    ex_binary ex_unmap ex_zero_handles ex_destructor ex_sentinel_reserved ex_Map ex_Create
  by (simp add: all_invalid_def MarkUnpinned_def) (simp add: ex_env_def ex_pmt_def)

subsection \<open>Fuel\<close>

text \<open>Fuel only bounds the number of iterations: a loop that has returned on some fuel
  returns the same on any more.\<close>

lemma map_contig_loop_more_fuel:
  "map_contig_loop fuel e perms tok base remaining cur w = Some r \<Longrightarrow>
     map_contig_loop (fuel + k) e perms tok base remaining cur w = Some r"
proof (induction fuel arbitrary: base remaining cur w)
  case 0
  then show ?case by simp
next
  case (Suc fuel)
  obtain s v l where m: "Map_result e (length (iommu_calls w)) = (s, v, l)"
    by (cases "Map_result e (length (iommu_calls w))") auto
  let ?w1 = "w\<lparr>iommu_calls := iommu_calls w @ [IommuMap cur remaining perms]\<rparr>"
  show ?case
  proof (cases "remaining \<noteq> 0 \<and> s = ZX_OK
                 \<and> (base = kInvalidAddr \<or> v = base + cur - pmt_offset tok)")
    case True
    then have c: "remaining \<noteq> 0" "Map_result e (length (iommu_calls w)) = (ZX_OK, v, l)"
      "base = kInvalidAddr \<or> v = base + cur - pmt_offset tok"
      using m by simp_all
    have "map_contig_loop fuel e perms tok (if base = kInvalidAddr then v else base)
            (remaining - l) (cur + l) ?w1 = Some r"
      using Suc.prems unfolding map_contig_loop_continue [OF c] .
    from Suc.IH [OF this] show ?thesis
      using map_contig_loop_continue [OF c, of "fuel + k" perms] by simp
  next
    case False
    with Suc.prems m show ?thesis
      by (auto simp: Let_def iommu_Map_def split: if_splits)
  qed
qed

lemma map_sg_loop_more_fuel:
  "map_sg_loop fuel e perms tok remaining cur idx w = Some r \<Longrightarrow>
     map_sg_loop (fuel + k) e perms tok remaining cur idx w = Some r"
proof (induction fuel arbitrary: tok remaining cur idx w)
  case 0
  then show ?case by simp
next
  case (Suc fuel)
  obtain s v l where m: "Map_result e (length (iommu_calls w)) = (s, v, l)"
    by (cases "Map_result e (length (iommu_calls w))") auto
  let ?w1 = "w\<lparr>iommu_calls := iommu_calls w @ [IommuMap cur remaining perms]\<rparr>"
  let ?go = "remaining \<noteq> 0 \<and> s = ZX_OK
             \<and> \<not> (debug_asserts e \<and> minimum_contiguity e = 0)
             \<and> DEBUG_ASSERT e (l mod minimum_contiguity e = 0 \<or> remaining = l)"
  show ?case
  proof (cases ?go)
    case go: True
    show ?thesis
    proof (cases "fill_chunks (minimum_contiguity e) (pmt_mapped_addrs tok) idx v l")
      case (Inl f)
      with go Suc.prems m show ?thesis
        by (auto simp: Let_def iommu_Map_def split: if_splits)
    next
      case (Inr p)
      obtain addrs' idx' where p: "p = (addrs', idx')" by (cases p) auto
      have step: "map_sg_loop (Suc n) e perms tok remaining cur idx w
                    = map_sg_loop n e perms (tok\<lparr>pmt_mapped_addrs := addrs'\<rparr>)
                        (remaining - min l remaining) (cur + l) idx' ?w1" for n
        using go m Inr p by (auto simp: Let_def iommu_Map_def)
      from Suc.prems have "map_sg_loop fuel e perms (tok\<lparr>pmt_mapped_addrs := addrs'\<rparr>)
                        (remaining - min l remaining) (cur + l) idx' ?w1 = Some r"
        unfolding step .
      from Suc.IH [OF this] show ?thesis
        using step [of "fuel + k"] by simp
    qed
  next
    case False
    with Suc.prems m show ?thesis
      by (auto simp: Let_def iommu_Map_def split: if_splits sum.splits prod.splits)
  qed
qed

lemma MapIntoIommu_more_fuel:
  assumes "MapIntoIommu fuel e perms tok w = Some r"
  shows "MapIntoIommu (fuel + k) e perms tok w = Some r"
proof (cases "pmt_is_contiguous tok")
  case False
  with assms show ?thesis by (simp add: MapIntoIommu_def map_sg_loop_more_fuel)
next
  case True
  with assms obtain r' where
    l: "map_contig_loop fuel e perms tok kInvalidAddr (pmt_size tok) (pmt_offset tok) w = Some r'"
    by (auto simp: MapIntoIommu_def split: option.splits)
  from map_contig_loop_more_fuel [OF l, of k] l assms True show ?thesis
    by (simp add: MapIntoIommu_def)
qed

end
